theory Spec2Isabelle
  imports Complex_Main "HOL-Library.Word" "HOL-Library.Signed_Division"
begin

section \<open>Kernel image processing: data model\<close>

text \<open>
  A shallow embedding of the convolution engine of KIP-CUDA: \<^verbatim>\<open>kernel.cpp\<close>,
  \<^verbatim>\<open>image.cpp\<close>, \<^verbatim>\<open>sequential/convolution.cpp\<close> and the device kernels of
  \<^verbatim>\<open>parallel/convolution.cu\<close>.

  Conventions of the embedding.
  \<^item> A C++ \<^verbatim>\<open>int\<close> is a HOL \<open>int\<close>: the development covers the executions in which
    no \<^verbatim>\<open>int\<close> expression leaves the 32-bit range and every allocation succeeds,
    on the host and on the device.
    The largest products that the program computes are the buffer sizes of
    \<^verbatim>\<open>Kernel::get_size\<close> and \<^verbatim>\<open>Image::get_size\<close>; the theorems on the construction
    of kernels, on ZERO padding and on the convolution assume that these are at most
    \<open>INT_MAX\<close>. Integer division and remainder of C++ truncate towards zero: they are
    \<open>sdiv\<close> and \<open>smod\<close>.
  \<^item> The convolution loops compute the index of a padded pixel in \<^verbatim>\<open>float\<close>
    (\<^verbatim>\<open>x + kx - floor((float)kernel_width / 2) + padding_width\<close>) and cut it to an
    \<^verbatim>\<open>int\<close>. Every integer of magnitude at most \<open>2 ^ 24\<close> is a \<^verbatim>\<open>float\<close>, and sums and
    differences of floats that stay in this range are exact; the embedding writes the
    index with integer arithmetic, and the theorems about the convolution assume that
    the width and the height of the raster, each increased by that of the kernel,
    are at most \<open>2 ^ 24\<close>, so that every operand and every intermediate result of the
    index expression is in the exact range.
  \<^item> A \<^verbatim>\<open>uint8_t\<close> is an \<open>8 word\<close>.
  \<^item> A finite \<^verbatim>\<open>float\<close> is the real number it denotes. The rounding done by the
    arithmetic operators is not fixed: addition, multiplication and division of floats
    are the fields of a record \<open>float_ops\<close> that every function computing with floats
    takes as its first argument. The conversions between \<^verbatim>\<open>uint8_t\<close> and \<^verbatim>\<open>float\<close>
    are exact and are written out. Infinities and NaN are outside the model.
  \<^item> A \<^verbatim>\<open>throw std::invalid_argument(msg)\<close> is a result \<open>Inl e\<close>, one constructor of
    \<open>error\<close> for each message of the source.
  \<^item> A heap array is a list; \<^verbatim>\<open>memcpy(dst, src, n)\<close> is \<open>take n src\<close>.
\<close>

type_synonym u8 = "8 word"
type_synonym float = real

text \<open>The largest value of a 32-bit \<^verbatim>\<open>int\<close>, \<^verbatim>\<open>INT_MAX\<close> of \<^verbatim>\<open>climits\<close>.\<close>

definition INT_MAX :: int where
  "INT_MAX = 2147483647"

datatype error =
    Kernel_dimensions_not_positive  \<comment> \<open>"Kernel dimensions must be greater than 0."\<close>
  | Kernel_dimensions_not_odd       \<comment> \<open>"Kernel dimensions must be odd."\<close>
  | Kernel_dimensions_not_equal     \<comment> \<open>"Kernel dimensions must be equal."\<close>
  | Invalid_kernel_coordinates      \<comment> \<open>"Invalid kernel coordinates."\<close>
  | Invalid_coordinates             \<comment> \<open>"Invalid coordinates."\<close>
  | Invalid_padding_dimensions      \<comment> \<open>"Invalid padding dimensions."\<close>
  | Cuda_error                      \<comment> \<open>\<^verbatim>\<open>CheckCudaErrorAux\<close>: a runtime call failed, \<^verbatim>\<open>exit(1)\<close>\<close>

text \<open>The three constructor failures of \<^verbatim>\<open>Kernel::Kernel\<close> are what the specification
  calls an InvalidDimensions error.\<close>

definition InvalidDimensions :: "error \<Rightarrow> bool" where
  "InvalidDimensions e \<longleftrightarrow>
     e = Kernel_dimensions_not_positive \<or> e = Kernel_dimensions_not_odd
     \<or> e = Kernel_dimensions_not_equal"

record float_ops =
  f_add :: "float \<Rightarrow> float \<Rightarrow> float"
  f_mul :: "float \<Rightarrow> float \<Rightarrow> float"
  f_div :: "float \<Rightarrow> float \<Rightarrow> float"

text \<open>The operations without rounding, used to run the model on inputs whose
  intermediate values are all exactly representable.\<close>

definition exact_ops :: float_ops where
  "exact_ops = \<lparr>f_add = (+), f_mul = (*), f_div = (/)\<rparr>"

subsection \<open>Kernel (\<^verbatim>\<open>kernel.cpp\<close>)\<close>

record Kernel =
  k_width :: int
  k_height :: int
  k_data :: "float list"

definition Kernel_get_size :: "Kernel \<Rightarrow> nat" where
  "Kernel_get_size k = nat (k_width k * k_height k)"

text \<open>\<^verbatim>\<open>Kernel::Kernel(const int width, const int height)\<close>. The array has
  \<^verbatim>\<open>width * height\<close> elements, a product of two \<^verbatim>\<open>int\<close>: the length written here is
  that of the program when the product is at most \<open>INT_MAX\<close>.\<close>

definition Kernel_new :: "int \<Rightarrow> int \<Rightarrow> error + Kernel" where
  "Kernel_new w h =
     (if w \<le> 0 \<or> h \<le> 0 then Inl Kernel_dimensions_not_positive
      else if w smod 2 = 0 \<or> h smod 2 = 0 then Inl Kernel_dimensions_not_odd
      else if w \<noteq> h then Inl Kernel_dimensions_not_equal
      else Inr \<lparr>k_width = w, k_height = h, k_data = replicate (nat (w * h)) 0\<rparr>)"

text \<open>\<^verbatim>\<open>Kernel::Kernel(const int width, const int height, float *data)\<close>: the delegated
  constructor, then a copy of \<open>get_size()\<close> floats.\<close>

definition Kernel_from :: "int \<Rightarrow> int \<Rightarrow> float list \<Rightarrow> error + Kernel" where
  "Kernel_from w h d =
     (case Kernel_new w h of
        Inl e \<Rightarrow> Inl e
      | Inr k \<Rightarrow> Inr (k\<lparr>k_data := take (Kernel_get_size k) d\<rparr>))"

text \<open>\<^verbatim>\<open>Kernel::operator()(col, row)\<close>, read.\<close>

definition Kernel_at :: "Kernel \<Rightarrow> int \<Rightarrow> int \<Rightarrow> error + float" where
  "Kernel_at k col row =
     (if (col < 0 \<or> col \<ge> k_width k) \<or> (row < 0 \<or> row \<ge> k_height k)
      then Inl Invalid_kernel_coordinates
      else Inr (k_data k ! nat ((row * k_width k) + col)))"

text \<open>The invariant of the specification: square, odd, positive.\<close>

definition valid_kernel_dims :: "int \<Rightarrow> int \<Rightarrow> bool" where
  "valid_kernel_dims w h \<longleftrightarrow> w = h \<and> odd w \<and> odd h \<and> 0 < w \<and> 0 < h"

subsection \<open>Raster buffer (\<^verbatim>\<open>image.cpp\<close>)\<close>

datatype PaddingType = ZERO | REPLICATE | MIRROR

record Image =
  width :: int
  height :: int
  channels :: int
  is_SoA :: bool
  data :: "u8 list"

definition get_size :: "Image \<Rightarrow> nat" where
  "get_size img = nat (width img * height img * channels img)"

text \<open>\<^verbatim>\<open>Image::Image(width, height, channels, is_SoA)\<close>: a zero-filled buffer of
  \<^verbatim>\<open>width * height * channels\<close> bytes, a product of three \<^verbatim>\<open>int\<close>: the length written
  here is that of the program when the product is at most \<open>INT_MAX\<close>.\<close>

definition Image_new :: "int \<Rightarrow> int \<Rightarrow> int \<Rightarrow> bool \<Rightarrow> Image" where
  "Image_new w h c soa =
     \<lparr>width = w, height = h, channels = c, is_SoA = soa,
      data = replicate (nat (w * h * c)) 0\<rparr>"

text \<open>\<^verbatim>\<open>Image::Image(width, height, channels, data, is_SoA)\<close>\<close>

definition Image_from :: "int \<Rightarrow> int \<Rightarrow> int \<Rightarrow> u8 list \<Rightarrow> bool \<Rightarrow> Image" where
  "Image_from w h c d soa = (Image_new w h c soa)\<lparr>data := take (nat (w * h * c)) d\<rparr>"

text \<open>The index computed by \<^verbatim>\<open>Image::operator()\<close> and by the device functions
  \<^verbatim>\<open>get_pixel_value\<close> and \<^verbatim>\<open>set_pixel_value\<close>.\<close>

definition pixel_index :: "bool \<Rightarrow> int \<Rightarrow> int \<Rightarrow> int \<Rightarrow> int \<Rightarrow> int \<Rightarrow> int \<Rightarrow> int" where
  "pixel_index soa w h ch col row channel =
     (if soa then (channel * w * h) + (row * w) + col
      else (row * w + col) * ch + channel)"

definition Image_index :: "Image \<Rightarrow> int \<Rightarrow> int \<Rightarrow> int \<Rightarrow> int" where
  "Image_index img col row channel =
     pixel_index (is_SoA img) (width img) (height img) (channels img) col row channel"

definition coords_invalid :: "Image \<Rightarrow> int \<Rightarrow> int \<Rightarrow> int \<Rightarrow> bool" where
  "coords_invalid img col row channel \<longleftrightarrow>
     (col < 0 \<or> col \<ge> width img) \<or> (row < 0 \<or> row \<ge> height img)
     \<or> (channel < 0 \<or> channel \<ge> channels img)"

text \<open>\<^verbatim>\<open>Image::operator()(col, row, channel)\<close> returns a reference: reading through it
  is \<open>Image_at\<close>, assigning through it is \<open>Image_set\<close>.\<close>

definition Image_at :: "Image \<Rightarrow> int \<Rightarrow> int \<Rightarrow> int \<Rightarrow> error + u8" where
  "Image_at img col row channel =
     (if coords_invalid img col row channel then Inl Invalid_coordinates
      else Inr (data img ! nat (Image_index img col row channel)))"

definition Image_set :: "Image \<Rightarrow> int \<Rightarrow> int \<Rightarrow> int \<Rightarrow> u8 \<Rightarrow> error + Image" where
  "Image_set img col row channel v =
     (if coords_invalid img col row channel then Inl Invalid_coordinates
      else Inr (img\<lparr>data := (data img)[nat (Image_index img col row channel) := v]\<rparr>))"

text \<open>\<^verbatim>\<open>Image::operator==\<close>: the three dimensions, then \<^verbatim>\<open>memcmp\<close> over \<open>get_size()\<close>
  bytes.\<close>

definition Image_eq :: "Image \<Rightarrow> Image \<Rightarrow> bool" where
  "Image_eq a b =
     (if width a \<noteq> width b \<or> height a \<noteq> height b \<or> channels a \<noteq> channels b then False
      else take (get_size a) (data a) = take (get_size a) (data b))"

text \<open>The invariant of a raster: positive dimensions and a buffer of exactly
  width * height * channels bytes.\<close>

definition wf_image :: "Image \<Rightarrow> bool" where
  "wf_image img \<longleftrightarrow>
     0 < width img \<and> 0 < height img \<and> 0 < channels img
     \<and> length (data img) = get_size img"

subsection \<open>Control flow\<close>

text \<open>\<^verbatim>\<open>for (int i = 0; i < n; i++) body\<close> over a state that the body updates.\<close>

definition for_loop :: "int \<Rightarrow> (int \<Rightarrow> 's \<Rightarrow> 's) \<Rightarrow> 's \<Rightarrow> 's" where
  "for_loop n body s = fold body [0..n - 1] s"

text \<open>The same loop when the body can throw: the first exception leaves the loop.\<close>

fun for_each :: "'a list \<Rightarrow> ('a \<Rightarrow> 's \<Rightarrow> error + 's) \<Rightarrow> 's \<Rightarrow> error + 's" where
  "for_each [] body s = Inr s"
| "for_each (i # is) body s =
     (case body i s of Inl e \<Rightarrow> Inl e | Inr s' \<Rightarrow> for_each is body s')"

definition for_loop_e :: "int \<Rightarrow> (int \<Rightarrow> 's \<Rightarrow> error + 's) \<Rightarrow> 's \<Rightarrow> error + 's" where
  "for_loop_e n body s = for_each [0..n - 1] body s"

definition ebind :: "error + 'a \<Rightarrow> ('a \<Rightarrow> error + 'b) \<Rightarrow> error + 'b" where
  "ebind r f = (case r of Inl e \<Rightarrow> Inl e | Inr a \<Rightarrow> f a)"

subsection \<open>Layout conversion (\<^verbatim>\<open>Image::AoS_to_SoA\<close>, \<^verbatim>\<open>Image::SoA_to_AoS\<close>)\<close>

definition AoS_to_SoA :: "Image \<Rightarrow> Image" where
  "AoS_to_SoA img =
     (let w = width img; h = height img; ch = channels img;
          data_SoA = replicate (get_size img) (0 :: u8)
      in img\<lparr>data :=
           for_loop ch (\<lambda>channel.
             for_loop h (\<lambda>row.
               for_loop w (\<lambda>col d.
                 d[nat (channel * w * h + row * w + col) :=
                     data img ! nat ((row * w + col) * ch + channel)])))
           data_SoA\<rparr>)"

definition SoA_to_AoS :: "Image \<Rightarrow> Image" where
  "SoA_to_AoS img =
     (let w = width img; h = height img; ch = channels img;
          data_AoS = replicate (get_size img) (0 :: u8)
      in img\<lparr>data :=
           for_loop ch (\<lambda>channel.
             for_loop h (\<lambda>row.
               for_loop w (\<lambda>col d.
                 d[nat ((row * w + col) * ch + channel) :=
                     data img ! nat (channel * w * h + row * w + col)])))
           data_AoS\<rparr>)"

subsection \<open>Padding (\<^verbatim>\<open>Image::padding\<close>)\<close>

text \<open>\<^verbatim>\<open>#define clamp(start, x, end) std::min(std::max(start, x), end)\<close>\<close>

definition clamp :: "'a::linorder \<Rightarrow> 'a \<Rightarrow> 'a \<Rightarrow> 'a" where
  "clamp start x end' = min (max start x) end'"

text \<open>The two statements of the MIRROR branch for one coordinate \<open>v\<close> against one
  dimension \<open>extent\<close> (the width for a column, the height for a row).\<close>

definition mirror_index :: "int \<Rightarrow> int \<Rightarrow> int" where
  "mirror_index extent v =
     (let m = \<bar>v smod (2 * extent)\<bar>
      in min m (((2 * extent) - 1) - (m + 1)))"

text \<open>The body of the three nested loops: destination pixel \<open>(x, y, channel)\<close>.\<close>

definition padding_step ::
  "Image \<Rightarrow> int \<Rightarrow> int \<Rightarrow> PaddingType \<Rightarrow> int \<Rightarrow> int \<Rightarrow> int \<Rightarrow> Image \<Rightarrow> error + Image" where
  "padding_step img padding_width padding_height padding_type channel y x padded_image =
     (let col = x - padding_width; row = y - padding_height
      in if col \<ge> 0 \<and> col < width img \<and> row \<ge> 0 \<and> row < height img
         then ebind (Image_at img col row channel) (Image_set padded_image x y channel)
         else (case padding_type of
                 ZERO \<Rightarrow> Image_set padded_image x y channel 0
               | REPLICATE \<Rightarrow>
                   (let valid_col = clamp 0 col (width img - 1);
                        valid_row = clamp 0 row (height img - 1)
                    in ebind (Image_at img valid_col valid_row channel)
                         (Image_set padded_image x y channel))
               | MIRROR \<Rightarrow>
                   (let mirror_col = mirror_index (width img) col;
                        mirror_row = mirror_index (height img) row
                    in ebind (Image_at img mirror_col mirror_row channel)
                         (Image_set padded_image x y channel))))"

definition padding :: "Image \<Rightarrow> int \<Rightarrow> int \<Rightarrow> PaddingType \<Rightarrow> error + Image" where
  "padding img padding_width padding_height padding_type =
     (if padding_width < 0 \<or> padding_height < 0 then Inl Invalid_padding_dimensions
      else
        (let padded_width = width img + (padding_width * 2);
             padded_height = height img + (padding_height * 2);
             padded_image = Image_new padded_width padded_height (channels img) (is_SoA img)
         in for_loop_e (channels img) (\<lambda>channel.
              for_loop_e padded_height (\<lambda>y.
                for_loop_e padded_width (\<lambda>x.
                  padding_step img padding_width padding_height padding_type channel y x)))
            padded_image))"

subsection \<open>Custom kernels (\<^verbatim>\<open>Kernel::custom_kernel\<close>)\<close>

text \<open>The caller's array is passed by pointer and is written by the normalisation: the
  function returns the array as the call leaves it, together with the constructed
  kernel or the constructor's exception.\<close>

definition custom_kernel ::
  "float_ops \<Rightarrow> int \<Rightarrow> float list \<Rightarrow> bool \<Rightarrow> float list \<times> (error + Kernel)" where
  "custom_kernel F size' d normalize' =
     (let d' =
        (if normalize' then
           (let sum = for_loop (size' * size') (\<lambda>i sum. f_add F sum (d ! nat i)) 0
            in for_loop (size' * size') (\<lambda>i d. d[nat i := f_div F (d ! nat i) sum]) d)
         else d)
      in (d', Kernel_from size' size' d'))"

subsection \<open>Sequential convolution (\<^verbatim>\<open>Sequential::Convolution::convolve\<close>)\<close>

text \<open>\<^verbatim>\<open>floor((float)k / 2)\<close>: the division by two is exact in \<^verbatim>\<open>float\<close>.\<close>

definition half_floor :: "int \<Rightarrow> int" where
  "half_floor k = \<lfloor>(of_int k :: real) / 2\<rfloor>"

text \<open>\<^verbatim>\<open>(uint8_t)clamp(0.0f, v, 255.0f)\<close>: the conversion of a float in the range of
  \<^verbatim>\<open>uint8_t\<close> drops the fraction.\<close>

definition store_u8 :: "float \<Rightarrow> u8" where
  "store_u8 v = word_of_int \<lfloor>clamp 0 v 255\<rfloor>"

text \<open>A \<^verbatim>\<open>uint8_t\<close> operand of a float multiplication is converted exactly.\<close>

definition float_of_u8 :: "u8 \<Rightarrow> float" where
  "float_of_u8 p = of_nat (unat p)"

text \<open>The two loops over the kernel for output pixel \<open>(x, y, channel)\<close>; the row offset
  is computed from \<^verbatim>\<open>kernel_width\<close>, as in the source. The source evaluates \<open>col\<close> and
  \<open>row\<close> in \<^verbatim>\<open>float\<close> (\<^verbatim>\<open>x + kx\<close> is converted, the half of the kernel width is
  subtracted and the padding added as floats) and cuts the result to an \<^verbatim>\<open>int\<close>; the
  integer expressions below have the same value when \<open>x + kx\<close> and \<open>y + ky\<close> are at most
  \<open>2 ^ 24\<close>.\<close>

definition convolve_pixel ::
  "float_ops \<Rightarrow> Image \<Rightarrow> Kernel \<Rightarrow> int \<Rightarrow> int \<Rightarrow> int \<Rightarrow> int \<Rightarrow> int \<Rightarrow> error + float" where
  "convolve_pixel F padded_image kern padding_width padding_height channel y x =
     (let kernel_width = k_width kern; kernel_height = k_height kern
      in for_loop_e kernel_height (\<lambda>ky.
           for_loop_e kernel_width (\<lambda>kx output_value.
             (let col = x + kx - half_floor kernel_width + padding_width;
                  row = y + ky - half_floor kernel_width + padding_height
              in ebind (Image_at padded_image col row channel) (\<lambda>p.
                 ebind (Kernel_at kern kx ky) (\<lambda>k.
                   Inr (f_add F output_value (f_mul F (float_of_u8 p) k)))))))
         0)"

definition convolve :: "float_ops \<Rightarrow> Image \<Rightarrow> Kernel \<Rightarrow> PaddingType \<Rightarrow> error + Image" where
  "convolve F img kern padding_type =
     (let width' = width img; height' = height img; channels' = channels img;
          kernel_width = k_width kern; kernel_height = k_height kern;
          padding_width = kernel_width sdiv 2;
          padding_height = kernel_height sdiv 2
      in ebind (padding img padding_width padding_height padding_type) (\<lambda>padded_image.
           for_loop_e channels' (\<lambda>channel.
             for_loop_e height' (\<lambda>y.
               for_loop_e width' (\<lambda>x output_image.
                 ebind (convolve_pixel F padded_image kern padding_width padding_height
                          channel y x)
                   (\<lambda>output_value.
                      Image_set output_image x y channel (store_u8 output_value)))))
           (Image_new width' height' channels' (is_SoA img))))"

subsection \<open>Device code (\<^verbatim>\<open>parallel/convolution.cu\<close>, \<^verbatim>\<open>params.h\<close>)\<close>

text \<open>
  A kernel launch is modelled thread by thread. The threads of a launch write pairwise
  different elements of the output and read only buffers that no thread of the same
  barrier interval writes, so running them one after the other, blocks row by row and
  the threads of a block row by row, gives the buffer every schedule gives. In the
  tiled kernel each \<^verbatim>\<open>__syncthreads()\<close> ends such an interval: all threads of the block
  finish the interval before any starts the next one. Memory that the program reads
  before writing it (\<^verbatim>\<open>cudaMalloc\<close>, dynamic shared memory) has arbitrary contents,
  given by a function from positions to bytes.
\<close>

definition TILE_WIDTH :: int where "TILE_WIDTH = 16"
definition MAX_MASK_WIDTH :: int where "MAX_MASK_WIDTH = 10"
definition ITERATIONS :: int where "ITERATIONS = 15"

definition uninitialized :: "(nat \<Rightarrow> 'a) \<Rightarrow> nat \<Rightarrow> 'a list" where
  "uninitialized junk n = map junk [0..<n]"

definition get_pixel_value ::
  "u8 list \<Rightarrow> int \<Rightarrow> int \<Rightarrow> int \<Rightarrow> int \<Rightarrow> int \<Rightarrow> int \<Rightarrow> bool \<Rightarrow> u8" where
  "get_pixel_value d_input col row channel w h ch soa =
     d_input ! nat (pixel_index soa w h ch col row channel)"

definition get_kernel_value :: "float list \<Rightarrow> int \<Rightarrow> int \<Rightarrow> int \<Rightarrow> int \<Rightarrow> float" where
  "get_kernel_value d_kernel col row w h = d_kernel ! nat ((row * w) + col)"

definition get_shared_pixel_value :: "u8 list \<Rightarrow> int \<Rightarrow> int \<Rightarrow> int \<Rightarrow> int \<Rightarrow> u8" where
  "get_shared_pixel_value s_data col row w h = s_data ! nat ((row * w) + col)"

definition set_pixel_value ::
  "u8 list \<Rightarrow> int \<Rightarrow> int \<Rightarrow> int \<Rightarrow> int \<Rightarrow> int \<Rightarrow> int \<Rightarrow> bool \<Rightarrow> u8 \<Rightarrow> u8 list" where
  "set_pixel_value d_input col row channel w h ch soa v =
     d_input[nat (pixel_index soa w h ch col row channel) := v]"

text \<open>The arguments that the three kernels share, and the built-in variables of a
  thread.\<close>

record kernel_args =
  d_input :: "u8 list"
  arg_width :: int
  arg_height :: int
  arg_channels :: int
  arg_kernel_width :: int
  arg_kernel_height :: int
  arg_padding_width :: int
  arg_padding_height :: int
  arg_is_SoA :: bool

record thread =
  blockIdx_x :: int
  blockIdx_y :: int
  blockDim_x :: int
  blockDim_y :: int
  threadIdx_x :: int
  threadIdx_y :: int

text \<open>\<^verbatim>\<open>convolution_kernel_global\<close>, one thread. As in the sequential loops, \<open>col\<close> and
  \<open>row\<close> are \<^verbatim>\<open>float\<close> expressions in the source, here and in the other two kernels,
  written with integer arithmetic.\<close>

definition convolution_kernel_global ::
  "float_ops \<Rightarrow> kernel_args \<Rightarrow> float list \<Rightarrow> thread \<Rightarrow> u8 list \<Rightarrow> u8 list" where
  "convolution_kernel_global F a d_kernel t d_output =
     (let x = blockIdx_x t * blockDim_x t + threadIdx_x t;
          y = blockIdx_y t * blockDim_y t + threadIdx_y t;
          padded_width = arg_width a + (2 * arg_padding_width a);
          padded_height = arg_height a + (2 * arg_padding_height a)
      in if x < arg_width a \<and> y < arg_height a then
           for_loop (arg_channels a) (\<lambda>channel d_output.
             (let output_value =
                for_loop (arg_kernel_height a) (\<lambda>ky.
                  for_loop (arg_kernel_width a) (\<lambda>kx output_value.
                    (let col = x + kx - half_floor (arg_kernel_width a) + arg_padding_width a;
                         row = y + ky - half_floor (arg_kernel_height a) + arg_padding_height a
                     in f_add F output_value
                          (f_mul F
                             (float_of_u8 (get_pixel_value (d_input a) col row channel
                                 padded_width padded_height (arg_channels a) (arg_is_SoA a)))
                             (get_kernel_value d_kernel kx ky
                                 (arg_kernel_width a) (arg_kernel_height a))))))
                0
              in set_pixel_value d_output x y channel (arg_width a) (arg_height a)
                   (arg_channels a) (arg_is_SoA a) (store_u8 output_value)))
           d_output
         else d_output)"

text \<open>\<^verbatim>\<open>convolution_kernel_constant\<close>, one thread: the same statements, with the weights
  read from the constant array \<^verbatim>\<open>c_kernel\<close>.\<close>

definition convolution_kernel_constant ::
  "float_ops \<Rightarrow> kernel_args \<Rightarrow> float list \<Rightarrow> thread \<Rightarrow> u8 list \<Rightarrow> u8 list" where
  "convolution_kernel_constant F a c_kernel t d_output =
     (let x = blockIdx_x t * blockDim_x t + threadIdx_x t;
          y = blockIdx_y t * blockDim_y t + threadIdx_y t;
          padded_width = arg_width a + (2 * arg_padding_width a);
          padded_height = arg_height a + (2 * arg_padding_height a)
      in if x < arg_width a \<and> y < arg_height a then
           for_loop (arg_channels a) (\<lambda>channel d_output.
             (let output_value =
                for_loop (arg_kernel_height a) (\<lambda>ky.
                  for_loop (arg_kernel_width a) (\<lambda>kx output_value.
                    (let col = x + kx - half_floor (arg_kernel_width a) + arg_padding_width a;
                         row = y + ky - half_floor (arg_kernel_height a) + arg_padding_height a
                     in f_add F output_value
                          (f_mul F
                             (float_of_u8 (get_pixel_value (d_input a) col row channel
                                 padded_width padded_height (arg_channels a) (arg_is_SoA a)))
                             (get_kernel_value c_kernel kx ky
                                 (arg_kernel_width a) (arg_kernel_height a))))))
                0
              in set_pixel_value d_output x y channel (arg_width a) (arg_height a)
                   (arg_channels a) (arg_is_SoA a) (store_u8 output_value)))
           d_output
         else d_output)"

text \<open>\<^verbatim>\<open>convolution_kernel_shared\<close>, the statements of one thread for one channel: the
  first load into the tile (its row offset is computed with \<^verbatim>\<open>padding_width\<close>, as in the
  source), the second load, and after the barrier the sum over the tile and the store.\<close>

definition load_first :: "kernel_args \<Rightarrow> int \<Rightarrow> thread \<Rightarrow> u8 list \<Rightarrow> u8 list" where
  "load_first a channel t s_data =
     (let s_width = blockDim_x t + (arg_kernel_width a - 1);
          padded_width = arg_width a + (2 * arg_padding_width a);
          padded_height = arg_height a + (2 * arg_padding_height a);
          s_index = (threadIdx_y t * blockDim_x t) + threadIdx_x t;
          s_x = s_index smod s_width;
          s_y = s_index sdiv s_width;
          x = (blockIdx_x t * blockDim_x t) + s_x - half_floor (arg_kernel_width a)
                + arg_padding_width a;
          y = (blockIdx_y t * blockDim_y t) + s_y - half_floor (arg_kernel_height a)
                + arg_padding_width a
      in if x \<ge> 0 \<and> x < padded_width \<and> y \<ge> 0 \<and> y < padded_height
         then s_data[nat s_index :=
                get_pixel_value (d_input a) x y channel padded_width padded_height
                  (arg_channels a) (arg_is_SoA a)]
         else s_data[nat s_index := 0])"

definition load_last :: "kernel_args \<Rightarrow> int \<Rightarrow> thread \<Rightarrow> u8 list \<Rightarrow> u8 list" where
  "load_last a channel t s_data =
     (let s_width = blockDim_x t + (arg_kernel_width a - 1);
          s_height = blockDim_y t + (arg_kernel_height a - 1);
          padded_width = arg_width a + (2 * arg_padding_width a);
          padded_height = arg_height a + (2 * arg_padding_height a);
          s_index = (threadIdx_y t * blockDim_x t) + threadIdx_x t
                      + (blockDim_x t * blockDim_y t);
          s_x = s_index smod s_width;
          s_y = s_index sdiv s_width;
          x = (blockIdx_x t * blockDim_x t) + s_x - half_floor (arg_kernel_width a)
                + arg_padding_width a;
          y = (blockIdx_y t * blockDim_y t) + s_y - half_floor (arg_kernel_height a)
                + arg_padding_height a
      in if s_y < s_height then
           (if x \<ge> 0 \<and> x < padded_width \<and> y \<ge> 0 \<and> y < padded_height
            then s_data[nat s_index :=
                   get_pixel_value (d_input a) x y channel padded_width padded_height
                     (arg_channels a) (arg_is_SoA a)]
            else s_data[nat s_index := 0])
         else s_data)"

definition convolve_tile ::
  "float_ops \<Rightarrow> kernel_args \<Rightarrow> float list \<Rightarrow> int \<Rightarrow> u8 list \<Rightarrow> thread \<Rightarrow> u8 list \<Rightarrow> u8 list" where
  "convolve_tile F a c_kernel channel s_data t d_output =
     (let s_width = blockDim_x t + (arg_kernel_width a - 1);
          s_height = blockDim_y t + (arg_kernel_height a - 1);
          output_value =
            for_loop (arg_kernel_height a) (\<lambda>ky.
              for_loop (arg_kernel_width a) (\<lambda>kx output_value.
                (let col = threadIdx_x t + kx;
                     row = threadIdx_y t + ky
                 in f_add F output_value
                      (f_mul F
                         (float_of_u8 (get_shared_pixel_value s_data col row s_width s_height))
                         (get_kernel_value c_kernel kx ky
                             (arg_kernel_width a) (arg_kernel_height a))))))
            0;
          x = blockIdx_x t * blockDim_x t + threadIdx_x t;
          y = blockIdx_y t * blockDim_y t + threadIdx_y t
      in if x < arg_width a \<and> y < arg_height a
         then set_pixel_value d_output x y channel (arg_width a) (arg_height a)
                (arg_channels a) (arg_is_SoA a) (store_u8 output_value)
         else d_output)"

text \<open>All threads of block \<open>(bx, by)\<close> run a section of code that holds no barrier.\<close>

definition all_threads ::
  "int \<times> int \<Rightarrow> int \<times> int \<Rightarrow> (thread \<Rightarrow> 's \<Rightarrow> 's) \<Rightarrow> 's \<Rightarrow> 's" where
  "all_threads blockDim blockIdx section' s =
     for_loop (snd blockDim) (\<lambda>ty.
       for_loop (fst blockDim) (\<lambda>tx.
         section' \<lparr>blockIdx_x = fst blockIdx, blockIdx_y = snd blockIdx,
                   blockDim_x = fst blockDim, blockDim_y = snd blockDim,
                   threadIdx_x = tx, threadIdx_y = ty\<rparr>))
     s"

text \<open>\<^verbatim>\<open>convolution_kernel_shared\<close>, one block: for every channel the two loads of all
  threads, the barrier, the sums and stores of all threads, the barrier. The shared array
  \<open>s_data\<close> lives as long as the block.\<close>

definition convolution_kernel_shared ::
  "float_ops \<Rightarrow> kernel_args \<Rightarrow> float list \<Rightarrow> int \<times> int \<Rightarrow> int \<times> int
     \<Rightarrow> u8 list \<Rightarrow> u8 list \<Rightarrow> u8 list" where
  "convolution_kernel_shared F a c_kernel blockDim blockIdx s_data d_output =
     snd (for_loop (arg_channels a) (\<lambda>channel (s_data, d_output).
            (let s_data = all_threads blockDim blockIdx
                            (\<lambda>t s_data. load_last a channel t (load_first a channel t s_data))
                            s_data;
                 d_output = all_threads blockDim blockIdx
                              (convolve_tile F a c_kernel channel s_data) d_output
             in (s_data, d_output)))
          (s_data, d_output))"

text \<open>\<^verbatim>\<open>kernel<<<gridDim, blockDim>>>(...)\<close> for a kernel given block by block.\<close>

definition launch :: "int \<times> int \<Rightarrow> (int \<times> int \<Rightarrow> 's \<Rightarrow> 's) \<Rightarrow> 's \<Rightarrow> 's" where
  "launch gridDim block s =
     for_loop (snd gridDim) (\<lambda>by. for_loop (fst gridDim) (\<lambda>bx. block (bx, by))) s"

subsection \<open>Host code (\<^verbatim>\<open>Parallel::Convolution\<close>)\<close>

text \<open>The grid of the four host functions: \<^verbatim>\<open>(width + blockDim.x - 1) / blockDim.x\<close>
  blocks in a row, likewise for the rows.\<close>

definition grid_of :: "int \<Rightarrow> int \<Rightarrow> int \<times> int \<Rightarrow> int \<times> int" where
  "grid_of width' height' blockDim =
     ((width' + fst blockDim - 1) sdiv fst blockDim,
      (height' + snd blockDim - 1) sdiv snd blockDim)"

definition args_of :: "Image \<Rightarrow> Kernel \<Rightarrow> Image \<Rightarrow> int \<Rightarrow> int \<Rightarrow> kernel_args" where
  "args_of img kern padded_image padding_width padding_height =
     \<lparr>d_input = take (get_size padded_image) (data padded_image),
      arg_width = width img, arg_height = height img, arg_channels = channels img,
      arg_kernel_width = k_width kern, arg_kernel_height = k_height kern,
      arg_padding_width = padding_width, arg_padding_height = padding_height,
      arg_is_SoA = is_SoA img\<rparr>"

text \<open>\<^verbatim>\<open>cudaMemcpyToSymbol(c_kernel, h_kernel, kernel_size, 0, ...)\<close>: the runtime refuses
  a copy that does not fit the array of \<open>MAX_MASK_WIDTH * MAX_MASK_WIDTH\<close> floats, and
  \<^verbatim>\<open>CUDA_CHECK_RETURN\<close> then ends the process.\<close>

definition copy_to_c_kernel :: "float list \<Rightarrow> Kernel \<Rightarrow> error + float list" where
  "copy_to_c_kernel c_kernel kern =
     (if k_width kern * k_height kern > MAX_MASK_WIDTH * MAX_MASK_WIDTH then Inl Cuda_error
      else Inr (take (Kernel_get_size kern) (k_data kern)
                @ drop (Kernel_get_size kern) c_kernel))"

text \<open>\<^verbatim>\<open>convolve_global\<close>. The device output buffer is allocated, not initialised, and
  the kernel is launched \<open>ITERATIONS\<close> times on it.\<close>

definition convolve_global ::
  "float_ops \<Rightarrow> Image \<Rightarrow> Kernel \<Rightarrow> PaddingType \<Rightarrow> (nat \<Rightarrow> u8) \<Rightarrow> error + Image" where
  "convolve_global F img kern padding_type junk =
     (let padding_width = half_floor (k_width kern);
          padding_height = half_floor (k_height kern)
      in ebind (padding img padding_width padding_height padding_type) (\<lambda>padded_image.
           (let a = args_of img kern padded_image padding_width padding_height;
                d_kernel = take (Kernel_get_size kern) (k_data kern);
                blockDim = (TILE_WIDTH, TILE_WIDTH);
                gridDim = grid_of (width img) (height img) blockDim;
                d_output = for_loop ITERATIONS (\<lambda>i.
                             launch gridDim (\<lambda>blockIdx.
                               all_threads blockDim blockIdx
                                 (convolution_kernel_global F a d_kernel)))
                           (uninitialized junk (get_size img))
            in Inr (Image_from (width img) (height img) (channels img) d_output
                      (is_SoA img)))))"

text \<open>\<^verbatim>\<open>convolve_constant\<close>. \<open>c_kernel0\<close> is the constant array as earlier calls left
  it.\<close>

definition convolve_constant ::
  "float_ops \<Rightarrow> Image \<Rightarrow> Kernel \<Rightarrow> PaddingType \<Rightarrow> (nat \<Rightarrow> u8) \<Rightarrow> float list \<Rightarrow> error + Image" where
  "convolve_constant F img kern padding_type junk c_kernel0 =
     (let padding_width = half_floor (k_width kern);
          padding_height = half_floor (k_height kern)
      in ebind (padding img padding_width padding_height padding_type) (\<lambda>padded_image.
         ebind (copy_to_c_kernel c_kernel0 kern) (\<lambda>c_kernel.
           (let a = args_of img kern padded_image padding_width padding_height;
                blockDim = (TILE_WIDTH, TILE_WIDTH);
                gridDim = grid_of (width img) (height img) blockDim;
                d_output = for_loop ITERATIONS (\<lambda>i.
                             launch gridDim (\<lambda>blockIdx.
                               all_threads blockDim blockIdx
                                 (convolution_kernel_constant F a c_kernel)))
                           (uninitialized junk (get_size img))
            in Inr (Image_from (width img) (height img) (channels img) d_output
                      (is_SoA img))))))"

text \<open>\<^verbatim>\<open>convolve_shared\<close>. Every block starts with \<open>shared_size\<close> bytes of shared memory
  of arbitrary contents \<open>junk_s\<close>.\<close>

definition convolve_shared ::
  "float_ops \<Rightarrow> Image \<Rightarrow> Kernel \<Rightarrow> PaddingType \<Rightarrow> (nat \<Rightarrow> u8) \<Rightarrow> float list
     \<Rightarrow> (nat \<Rightarrow> u8) \<Rightarrow> error + Image" where
  "convolve_shared F img kern padding_type junk c_kernel0 junk_s =
     (let padding_width = half_floor (k_width kern);
          padding_height = half_floor (k_height kern)
      in ebind (padding img padding_width padding_height padding_type) (\<lambda>padded_image.
         ebind (copy_to_c_kernel c_kernel0 kern) (\<lambda>c_kernel.
           (let a = args_of img kern padded_image padding_width padding_height;
                shared_size = nat ((TILE_WIDTH + k_width kern - 1)
                                   * (TILE_WIDTH + k_height kern - 1));
                blockDim = (TILE_WIDTH, TILE_WIDTH);
                gridDim = grid_of (width img) (height img) blockDim;
                d_output = for_loop ITERATIONS (\<lambda>i.
                             launch gridDim (\<lambda>blockIdx.
                               convolution_kernel_shared F a c_kernel blockDim blockIdx
                                 (uninitialized junk_s shared_size)))
                           (uninitialized junk (get_size img))
            in Inr (Image_from (width img) (height img) (channels img) d_output
                      (is_SoA img))))))"

text \<open>\<^verbatim>\<open>convolve_pinned\<close>: the input and the output pass through page-locked host
  buffers and one stream; the launches are those of \<^verbatim>\<open>convolve_shared\<close>.\<close>

definition convolve_pinned ::
  "float_ops \<Rightarrow> Image \<Rightarrow> Kernel \<Rightarrow> PaddingType \<Rightarrow> (nat \<Rightarrow> u8) \<Rightarrow> float list
     \<Rightarrow> (nat \<Rightarrow> u8) \<Rightarrow> error + Image" where
  "convolve_pinned F img kern padding_type junk c_kernel0 junk_s =
     (let padding_width = half_floor (k_width kern);
          padding_height = half_floor (k_height kern)
      in ebind (padding img padding_width padding_height padding_type) (\<lambda>padded_image.
           (let h_pinned_input = take (get_size padded_image) (data padded_image);
                a = (args_of img kern padded_image padding_width padding_height)
                      \<lparr>d_input := take (get_size padded_image) h_pinned_input\<rparr>
            in ebind (copy_to_c_kernel c_kernel0 kern) (\<lambda>c_kernel.
                 (let shared_size = nat ((TILE_WIDTH + k_width kern - 1)
                                         * (TILE_WIDTH + k_height kern - 1));
                      blockDim = (TILE_WIDTH, TILE_WIDTH);
                      gridDim = grid_of (width img) (height img) blockDim;
                      d_output = for_loop ITERATIONS (\<lambda>i.
                                   launch gridDim (\<lambda>blockIdx.
                                     convolution_kernel_shared F a c_kernel blockDim blockIdx
                                       (uninitialized junk_s shared_size)))
                                 (uninitialized junk (get_size img));
                      h_pinned_output = take (get_size img) d_output;
                      h_output = take (get_size img) h_pinned_output
                  in Inr (Image_from (width img) (height img) (channels img) h_output
                            (is_SoA img)))))))"

subsection \<open>Descriptions used in the statements\<close>

text \<open>The value that \<open>padding_step\<close> assigns to destination pixel \<open>(x, y, channel)\<close>,
  or the exception of the read that produces it.\<close>

definition padding_value ::
  "Image \<Rightarrow> int \<Rightarrow> int \<Rightarrow> PaddingType \<Rightarrow> int \<Rightarrow> int \<Rightarrow> int \<Rightarrow> error + u8" where
  "padding_value img padding_width padding_height padding_type channel y x =
     (let col = x - padding_width; row = y - padding_height
      in if col \<ge> 0 \<and> col < width img \<and> row \<ge> 0 \<and> row < height img
         then Image_at img col row channel
         else (case padding_type of
                 ZERO \<Rightarrow> Inr 0
               | REPLICATE \<Rightarrow>
                   Image_at img (clamp 0 col (width img - 1)) (clamp 0 row (height img - 1)) channel
               | MIRROR \<Rightarrow>
                   Image_at img (mirror_index (width img) col) (mirror_index (height img) row)
                     channel))"

text \<open>The coordinates \<open>(c, y, x)\<close> of a raster of \<open>C\<close> channels, \<open>H\<close> rows and \<open>W\<close>
  columns, in the order in which the loop nests visit them.\<close>

definition box :: "int \<Rightarrow> int \<Rightarrow> int \<Rightarrow> (int \<times> int \<times> int) list" where
  "box C H W = List.product [0..C - 1] (List.product [0..H - 1] [0..W - 1])"

text \<open>The weighted sum of the kernel window of output pixel \<open>(x, y, channel)\<close>: the
  window positions \<open>(ky, kx)\<close> row by row, each padded pixel converted to float,
  multiplied by its weight and added to the accumulator, which starts at 0. The pixel is
  read at its index without a bounds check.\<close>

definition window :: "Kernel \<Rightarrow> (int \<times> int) list" where
  "window kern = List.product [0..k_height kern - 1] [0..k_width kern - 1]"

definition pixel_of :: "Image \<Rightarrow> int \<Rightarrow> int \<Rightarrow> int \<Rightarrow> u8" where
  "pixel_of img x y c = data img ! nat (Image_index img x y c)"

definition weight_of :: "Kernel \<Rightarrow> int \<Rightarrow> int \<Rightarrow> float" where
  "weight_of kern kx ky = k_data kern ! nat (ky * k_width kern + kx)"

definition weighted_sum :: "float_ops \<Rightarrow> Image \<Rightarrow> Kernel \<Rightarrow> int \<Rightarrow> int \<Rightarrow> int \<Rightarrow> float" where
  "weighted_sum F padded kern c y x =
     fold (\<lambda>(ky, kx) acc.
            f_add F acc (f_mul F (float_of_u8 (pixel_of padded (x + kx) (y + ky) c))
                                  (weight_of kern kx ky)))
       (window kern) 0"

text \<open>A function on buffers that assigns \<open>V i\<close> to every position \<open>i\<close> of \<open>D\<close> and
  leaves the other positions and the length as they are.\<close>

definition writes :: "(nat \<Rightarrow> 'a) \<Rightarrow> nat set \<Rightarrow> ('a list \<Rightarrow> 'a list) \<Rightarrow> bool" where
  "writes V D g \<longleftrightarrow>
     (\<forall>d. length (g d) = length d
          \<and> (\<forall>i < length d. g d ! i = (if i \<in> D then V i else d ! i)))"

text \<open>The sum that a thread of the global-memory or constant-memory kernel accumulates
  for output pixel \<open>(x, y, channel)\<close>.\<close>

definition device_sum :: "float_ops \<Rightarrow> kernel_args \<Rightarrow> float list \<Rightarrow> int \<Rightarrow> int \<Rightarrow> int \<Rightarrow> float" where
  "device_sum F a d_kernel channel y x =
     for_loop (arg_kernel_height a) (\<lambda>ky.
       for_loop (arg_kernel_width a) (\<lambda>kx output_value.
         (let col = x + kx - half_floor (arg_kernel_width a) + arg_padding_width a;
              row = y + ky - half_floor (arg_kernel_height a) + arg_padding_height a
          in f_add F output_value
               (f_mul F
                  (float_of_u8 (get_pixel_value (d_input a) col row channel
                      (arg_width a + (2 * arg_padding_width a))
                      (arg_height a + (2 * arg_padding_height a))
                      (arg_channels a) (arg_is_SoA a)))
                  (get_kernel_value d_kernel kx ky
                      (arg_kernel_width a) (arg_kernel_height a))))))
     0"

text \<open>A kernel as the constructors build it.\<close>

definition wf_kernel :: "Kernel \<Rightarrow> bool" where
  "wf_kernel kern \<longleftrightarrow>
     valid_kernel_dims (k_width kern) (k_height kern)
     \<and> length (k_data kern) = Kernel_get_size kern"

text \<open>The elements of the output that the thread at \<open>(x, y)\<close> stores.\<close>

definition thread_pixels :: "bool \<Rightarrow> int \<Rightarrow> int \<Rightarrow> int \<Rightarrow> int \<Rightarrow> int \<Rightarrow> nat set" where
  "thread_pixels soa W H C x y =
     (if x < W \<and> y < H then (\<Union>c \<in> {0..<C}. {nat (pixel_index soa W H C x y c)}) else {})"

text \<open>The tiled kernel. \<open>staged_value\<close> is the byte that a load of block \<open>blockIdx\<close> puts
  at position \<open>s_index\<close> of the tile; \<open>pad_y\<close> is the padding added to the row, which is
  \<^verbatim>\<open>padding_width\<close> in the first load and \<^verbatim>\<open>padding_height\<close> in the second. \<open>staged\<close> is
  the set of tile positions that the two loads of the threads of a block write, and
  \<open>tile\<close> the tile at the first barrier of a channel, in a block whose shared memory held
  \<open>s0\<close> when the block started. \<open>shared_sum\<close> is the sum that the thread of output pixel
  \<open>(x, y)\<close> accumulates from that tile.\<close>

definition staged_value :: "kernel_args \<Rightarrow> int \<Rightarrow> int \<times> int \<Rightarrow> int \<times> int \<Rightarrow> int \<Rightarrow> int \<Rightarrow> u8" where
  "staged_value a channel blockDim blockIdx pad_y s_index =
     (let s_width = fst blockDim + (arg_kernel_width a - 1);
          padded_width = arg_width a + (2 * arg_padding_width a);
          padded_height = arg_height a + (2 * arg_padding_height a);
          s_x = s_index smod s_width;
          s_y = s_index sdiv s_width;
          x = (fst blockIdx * fst blockDim) + s_x - half_floor (arg_kernel_width a)
                + arg_padding_width a;
          y = (snd blockIdx * snd blockDim) + s_y - half_floor (arg_kernel_height a) + pad_y
      in if x \<ge> 0 \<and> x < padded_width \<and> y \<ge> 0 \<and> y < padded_height
         then get_pixel_value (d_input a) x y channel padded_width padded_height
                (arg_channels a) (arg_is_SoA a)
         else 0)"

definition tile_value :: "kernel_args \<Rightarrow> int \<Rightarrow> int \<times> int \<Rightarrow> int \<times> int \<Rightarrow> nat \<Rightarrow> u8" where
  "tile_value a channel blockDim blockIdx j =
     (if int j < fst blockDim * snd blockDim
      then staged_value a channel blockDim blockIdx (arg_padding_width a) (int j)
      else staged_value a channel blockDim blockIdx (arg_padding_height a) (int j))"

definition staged :: "kernel_args \<Rightarrow> int \<times> int \<Rightarrow> nat set" where
  "staged a blockDim =
     {j. int j < 2 * (fst blockDim * snd blockDim)
         \<and> int j < (fst blockDim + (arg_kernel_width a - 1))
                   * (snd blockDim + (arg_kernel_height a - 1))}"

definition tile :: "kernel_args \<Rightarrow> int \<Rightarrow> int \<times> int \<Rightarrow> int \<times> int \<Rightarrow> u8 list \<Rightarrow> u8 list" where
  "tile a channel blockDim blockIdx s0 =
     map (\<lambda>j. if j \<in> staged a blockDim then tile_value a channel blockDim blockIdx j
               else s0 ! j)
       [0..<length s0]"

definition shared_sum ::
  "float_ops \<Rightarrow> kernel_args \<Rightarrow> float list \<Rightarrow> int \<times> int \<Rightarrow> u8 list \<Rightarrow> int \<Rightarrow> int \<Rightarrow> int \<Rightarrow> float" where
  "shared_sum F a c_kernel blockDim s0 channel y x =
     (let s_data = tile a channel blockDim (x div fst blockDim, y div snd blockDim) s0
      in for_loop (arg_kernel_height a) (\<lambda>ky.
           for_loop (arg_kernel_width a) (\<lambda>kx output_value.
             f_add F output_value
               (f_mul F
                  (float_of_u8 (get_shared_pixel_value s_data
                      (x mod fst blockDim + kx) (y mod snd blockDim + ky)
                      (fst blockDim + (arg_kernel_width a - 1))
                      (snd blockDim + (arg_kernel_height a - 1))))
                  (get_kernel_value c_kernel kx ky
                      (arg_kernel_width a) (arg_kernel_height a)))))
         0)"

text \<open>The positions that the thread \<open>(tx, ty)\<close> of a block loads.\<close>

definition thread_loads :: "kernel_args \<Rightarrow> int \<times> int \<Rightarrow> int \<Rightarrow> int \<Rightarrow> nat set" where
  "thread_loads a blockDim tx ty =
     {nat (ty * fst blockDim + tx)}
     \<union> (if ty * fst blockDim + tx + fst blockDim * snd blockDim
            < (fst blockDim + (arg_kernel_width a - 1)) * (snd blockDim + (arg_kernel_height a - 1))
         then {nat (ty * fst blockDim + tx + fst blockDim * snd blockDim)} else {})"

text \<open>The positions of the output that the block \<open>(bx, by)\<close> stores.\<close>

definition block_pixels :: "kernel_args \<Rightarrow> int \<times> int \<Rightarrow> int \<Rightarrow> int \<Rightarrow> nat set" where
  "block_pixels a blockDim bx by =
     (\<Union>c \<in> {0..<arg_channels a}. \<Union>ty \<in> {0..<snd blockDim}. \<Union>tx \<in> {0..<fst blockDim}.
        if bx * fst blockDim + tx < arg_width a \<and> by * snd blockDim + ty < arg_height a
        then {nat (pixel_index (arg_is_SoA a) (arg_width a) (arg_height a) (arg_channels a)
                     (bx * fst blockDim + tx) (by * snd blockDim + ty) c)}
        else {})"

subsection \<open>Concrete rasters\<close>

text \<open>A 4 by 4 single-channel interleaved raster whose pixel \<open>(col, row)\<close> holds
  \<open>4 * row + col\<close>, and the result of padding it by one pixel under MIRROR.\<close>

definition raster4 :: Image where
  "raster4 = Image_from 4 4 1 [0, 1, 2, 3, 4, 5, 6, 7, 8, 9, 10, 11, 12, 13, 14, 15] False"

definition raster4_mirrored :: Image where
  "raster4_mirrored =
     \<lparr>width = 6, height = 6, channels = 1, is_SoA = False,
      data = [5, 4, 5, 6, 7, 6,
              1, 0, 1, 2, 3, 2,
              5, 4, 5, 6, 7, 6,
              9, 8, 9, 10, 11, 10,
              13, 12, 13, 14, 15, 14,
              9, 8, 9, 10, 11, 10]\<rparr>"

text \<open>A 2 by 2 interleaved raster of three channels.\<close>

definition raster_rgb :: Image where
  "raster_rgb = Image_from 2 2 3 [10, 11, 12, 20, 21, 22, 30, 31, 32, 40, 41, 42] False"

text \<open>A black raster of 1 by 14 pixels, and the 9 by 9 kernel whose only weight is the
  last one.\<close>

definition black14 :: Image where
  "black14 = Image_new 1 14 1 False"

definition corner9 :: Kernel where
  "corner9 = \<lparr>k_width = 9, k_height = 9, k_data = replicate 80 0 @ [1]\<rparr>"

section \<open>Kernel construction\<close>

lemma Kernel_new_ok:
  assumes "0 < w" "odd w"
  shows "Kernel_new w w = Inr \<lparr>k_width = w, k_height = w, k_data = replicate (nat (w * w)) 0\<rparr>"
proof -
  have "w smod 2 \<noteq> 0"
    using assms by (simp add: signed_modulo_int_def sgn_if odd_iff_mod_2_eq_one)
  then show ?thesis
    using assms by (simp add: Kernel_new_def)
qed

lemma Kernel_new_Inr_dims:
  assumes "Kernel_new w h = Inr k"
  shows "k_width k = w \<and> k_height k = h \<and> valid_kernel_dims w h
         \<and> k_data k = replicate (nat (w * h)) 0"
proof -
  from assms have pos: "0 < w" "0 < h" and nz: "w smod 2 \<noteq> 0" "h smod 2 \<noteq> 0" and eq: "w = h"
    by (auto simp: Kernel_new_def split: if_splits)
  from pos nz have "odd w" "odd h"
    by (auto simp: signed_modulo_int_def sgn_if)
  with pos eq assms show ?thesis
    by (auto simp: Kernel_new_def valid_kernel_dims_def split: if_splits)
qed

lemma Kernel_new_invalid:
  assumes "\<not> valid_kernel_dims w h"
  shows "\<exists>e. Kernel_new w h = Inl e \<and> InvalidDimensions e"
proof (cases "Kernel_new w h")
  case (Inl e)
  then have "InvalidDimensions e"
    by (auto simp: Kernel_new_def InvalidDimensions_def split: if_splits)
  with Inl show ?thesis by blast
next
  case (Inr k)
  then show ?thesis using Kernel_new_Inr_dims assms by blast
qed

text \<open>
  Claim C4. Both constructors of Kernel succeed on every pair of equal, odd, positive
  dimensions whose product, the number of weights that \<^verbatim>\<open>get_size\<close> computes as an
  \<^verbatim>\<open>int\<close>, is at most \<open>INT_MAX\<close>, and return a kernel of those dimensions; whenever the
  dimensions differ, one of them is even, or one of them is not positive, both fail with
  one of the three invalid-dimension errors, which are thrown before the size is
  computed; a kernel that a constructor returns has valid dimensions.
\<close>

theorem Kernel_construction:
  "(valid_kernel_dims w h \<and> w * h \<le> INT_MAX \<longrightarrow>
      (\<exists>k. Kernel_new w h = Inr k \<and> k_width k = w \<and> k_height k = h)
      \<and> (\<exists>k. Kernel_from w h d = Inr k \<and> k_width k = w \<and> k_height k = h))
   \<and> (w \<noteq> h \<or> even w \<or> even h \<or> w \<le> 0 \<or> h \<le> 0 \<longrightarrow>
      (\<exists>e. Kernel_new w h = Inl e \<and> InvalidDimensions e)
      \<and> (\<exists>e. Kernel_from w h d = Inl e \<and> InvalidDimensions e))
   \<and> (\<forall>k. Kernel_new w h = Inr k \<or> Kernel_from w h d = Inr k \<longrightarrow>
      valid_kernel_dims (k_width k) (k_height k))"
proof (intro conjI impI allI)
  assume "valid_kernel_dims w h \<and> w * h \<le> INT_MAX"
  then have v: "valid_kernel_dims w h" ..
  then have "Kernel_new w h = Inr \<lparr>k_width = w, k_height = h, k_data = replicate (nat (w * h)) 0\<rparr>"
    using Kernel_new_ok [of w] by (simp add: valid_kernel_dims_def)
  then show "\<exists>k. Kernel_new w h = Inr k \<and> k_width k = w \<and> k_height k = h"
    and "\<exists>k. Kernel_from w h d = Inr k \<and> k_width k = w \<and> k_height k = h"
    by (simp_all add: Kernel_from_def)
next
  assume "w \<noteq> h \<or> even w \<or> even h \<or> w \<le> 0 \<or> h \<le> 0"
  then have "\<not> valid_kernel_dims w h"
    by (auto simp: valid_kernel_dims_def)
  then obtain e where e: "Kernel_new w h = Inl e" "InvalidDimensions e"
    using Kernel_new_invalid by blast
  then show "\<exists>e. Kernel_new w h = Inl e \<and> InvalidDimensions e"
    and "\<exists>e. Kernel_from w h d = Inl e \<and> InvalidDimensions e"
    by (simp_all add: Kernel_from_def)
next
  fix k
  assume "Kernel_new w h = Inr k \<or> Kernel_from w h d = Inr k"
  then obtain k' where k': "Kernel_new w h = Inr k'" "k_width k = k_width k'" "k_height k = k_height k'"
    by (auto simp: Kernel_from_def split: sum.splits)
  then show "valid_kernel_dims (k_width k) (k_height k)"
    using Kernel_new_Inr_dims [of w h k'] by simp
qed

theorem Kernel_construction_witness:
  "valid_kernel_dims 3 3 \<and> (3 :: int) * 3 \<le> INT_MAX
   \<and> (\<exists>k. Kernel_new 3 3 = Inr k \<and> k_width k = 3 \<and> k_height k = 3
        \<and> valid_kernel_dims (k_width k) (k_height k))
   \<and> (\<exists>k. Kernel_from 3 3 [1, 2, 3, 4, 5, 6, 7, 8, 9] = Inr k \<and> k_width k = 3 \<and> k_height k = 3
        \<and> valid_kernel_dims (k_width k) (k_height k))
   \<and> (\<exists>e. Kernel_new 4 4 = Inl e \<and> InvalidDimensions e)
   \<and> (\<exists>e. Kernel_from 3 5 [] = Inl e \<and> InvalidDimensions e)
   \<and> (\<exists>e. Kernel_new (- 3) (- 3) = Inl e \<and> InvalidDimensions e)"
proof -
  have v: "valid_kernel_dims 3 3" "(3 :: int) * 3 \<le> INT_MAX"
    by (simp_all add: valid_kernel_dims_def INT_MAX_def)
  show ?thesis
    using v Kernel_construction [of 3 3 "[1, 2, 3, 4, 5, 6, 7, 8, 9]"]
      Kernel_construction [of 4 4 "[]"] Kernel_construction [of 3 5 "[]"]
      Kernel_construction [of "- 3" "- 3" "[]"]
    by auto
qed

section \<open>Image equality\<close>

text \<open>
  Claim C10. Image equality does not look at the layout tag: two images of equal width,
  height and channel count with identical byte buffers compare equal whatever their
  layout tags are, and two images that differ in one of the three dimensions compare
  unequal.
\<close>

theorem Image_eq_ignores_layout:
  "(width a = width b \<and> height a = height b \<and> channels a = channels b \<and> data a = data b
      \<longrightarrow> Image_eq a b)
   \<and> (width a \<noteq> width b \<or> height a \<noteq> height b \<or> channels a \<noteq> channels b
      \<longrightarrow> \<not> Image_eq a b)"
  by (simp add: Image_eq_def)

theorem Image_eq_ignores_layout_witness:
  "is_SoA (Image_from 2 1 1 [7, 9] False) \<noteq> is_SoA (Image_from 2 1 1 [7, 9] True)
   \<and> Image_eq (Image_from 2 1 1 [7, 9] False) (Image_from 2 1 1 [7, 9] True)
   \<and> \<not> Image_eq (Image_from 2 1 1 [7, 9] False) (Image_from 1 2 1 [7, 9] False)"
  using Image_eq_ignores_layout [of "Image_from 2 1 1 [7, 9] False" "Image_from 2 1 1 [7, 9] True"]
    Image_eq_ignores_layout [of "Image_from 2 1 1 [7, 9] False" "Image_from 1 2 1 [7, 9] False"]
  by (simp add: Image_from_def Image_new_def)

section \<open>Loops, buffers and pixel indices\<close>

lemma ebind_Inr [simp]: "ebind (Inr a) f = f a"
  and ebind_Inl [simp]: "ebind (Inl e) f = Inl e"
  by (simp_all add: ebind_def)

lemma for_each_append:
  "for_each (xs @ ys) body s = ebind (for_each xs body s) (for_each ys body)"
  by (induction xs arbitrary: s) (auto split: sum.splits)

lemma for_each_map:
  "for_each (map g xs) body s = for_each xs (\<lambda>x. body (g x)) s"
  by (induction xs arbitrary: s) (auto split: sum.splits)

lemma for_each_product:
  "for_each xs (\<lambda>x. for_each ys (body x)) s
   = for_each (List.product xs ys) (\<lambda>(x, y). body x y) s"
proof (induction xs arbitrary: s)
  case Nil
  then show ?case by simp
next
  case (Cons x xs)
  show ?case
    by (simp add: for_each_append for_each_map Cons.IH ebind_def split: sum.splits)
qed

lemma for_each_total:
  assumes "\<And>p s. p \<in> set ps \<Longrightarrow> body p s = Inr (g p s)"
  shows "for_each ps body s = Inr (fold g ps s)"
  using assms by (induction ps arbitrary: s) auto

lemma fold_product:
  "fold (\<lambda>x. fold (body x) ys) xs s = fold (\<lambda>(x, y). body x y) (List.product xs ys) s"
  by (induction xs arbitrary: s) (simp_all add: fold_map comp_def)

lemma length_fold_update [simp]:
  "length (fold (\<lambda>p d. d[ix p := f p]) ps d) = length d"
  by (induction ps arbitrary: d) auto

lemma nth_fold_update_other:
  "i \<notin> ix ` set ps \<Longrightarrow> fold (\<lambda>p d. d[ix p := f p]) ps d ! i = d ! i"
  by (induction ps arbitrary: d) auto

lemma nth_fold_update:
  assumes "distinct (map ix ps)" "p \<in> set ps" "ix p < length d"
  shows "fold (\<lambda>p d. d[ix p := f p]) ps d ! ix p = f p"
  using assms
proof (induction ps arbitrary: d)
  case Nil
  then show ?case by simp
next
  case (Cons q ps)
  show ?case
  proof (cases "p = q")
    case True
    then have "ix p \<notin> ix ` set ps" using Cons.prems(1) by auto
    then show ?thesis using True Cons.prems(3)
      by (simp add: nth_fold_update_other)
  next
    case False
    then show ?thesis using Cons by auto
  qed
qed

lemma radix_bound:
  fixes a b n m :: int
  assumes "0 \<le> a" "a < n" "0 \<le> b" "b < m"
  shows "0 \<le> b * n + a \<and> b * n + a < m * n"
proof -
  have "b * n \<le> (m - 1) * n"
    using assms by (intro mult_right_mono) auto
  then have "b * n + a < m * n"
    using assms by (simp add: algebra_simps)
  moreover have "0 \<le> b * n" using assms by simp
  ultimately show ?thesis using assms by simp
qed

lemma radix_div_mod:
  fixes a b n :: int
  assumes "0 \<le> a" "a < n"
  shows "(b * n + a) div n = b" "(b * n + a) mod n = a"
  using assms by (simp_all add: div_pos_pos_trivial mod_pos_pos_trivial)

lemma radix_inj:
  fixes a b n :: int
  assumes "0 \<le> a" "a < n" "0 \<le> a'" "a' < n" "b * n + a = b' * n + a'"
  shows "a = a' \<and> b = b'"
  using radix_div_mod [of a n b] radix_div_mod [of a' n b'] assms by metis

lemma pixel_index_bound:
  assumes "0 \<le> col" "col < w" "0 \<le> row" "row < h" "0 \<le> c" "c < ch"
  shows "0 \<le> pixel_index soa w h ch col row c \<and> pixel_index soa w h ch col row c < w * h * ch"
proof (cases soa)
  case True
  have 1: "0 \<le> row * w + col \<and> row * w + col < h * w"
    using radix_bound [of col w row h] assms by simp
  have "0 \<le> c * (h * w) + (row * w + col) \<and> c * (h * w) + (row * w + col) < ch * (h * w)"
    using radix_bound [of "row * w + col" "h * w" c ch] 1 assms by simp
  then show ?thesis using True by (simp add: pixel_index_def algebra_simps)
next
  case False
  have 1: "0 \<le> row * w + col \<and> row * w + col < h * w"
    using radix_bound [of col w row h] assms by simp
  have "0 \<le> (row * w + col) * ch + c \<and> (row * w + col) * ch + c < (h * w) * ch"
    using radix_bound [of c ch "row * w + col" "h * w"] 1 assms by simp
  then show ?thesis using False by (simp add: pixel_index_def algebra_simps)
qed

lemma pixel_index_inj:
  assumes "0 \<le> col" "col < w" "0 \<le> row" "row < h" "0 \<le> c" "c < ch"
    and "0 \<le> col'" "col' < w" "0 \<le> row'" "row' < h" "0 \<le> c'" "c' < ch"
    and eq: "pixel_index soa w h ch col row c = pixel_index soa w h ch col' row' c'"
  shows "col = col' \<and> row = row' \<and> c = c'"
proof (cases soa)
  case True
  have 1: "0 \<le> row * w + col \<and> row * w + col < h * w"
    using radix_bound [of col w row h] assms by simp
  have 2: "0 \<le> row' * w + col' \<and> row' * w + col' < h * w"
    using radix_bound [of col' w row' h] assms by simp
  from eq True have "c * (h * w) + (row * w + col) = c' * (h * w) + (row' * w + col')"
    by (simp add: pixel_index_def algebra_simps)
  then have "row * w + col = row' * w + col' \<and> c = c'"
    using radix_inj [of "row * w + col" "h * w" "row' * w + col'" c c'] 1 2 by simp
  then show ?thesis
    using radix_inj [of col w col' row row'] assms by simp
next
  case False
  from eq False have "(row * w + col) * ch + c = (row' * w + col') * ch + c'"
    by (simp add: pixel_index_def)
  then have "c = c' \<and> row * w + col = row' * w + col'"
    using radix_inj [of c ch c' "row * w + col" "row' * w + col'"] assms by simp
  then show ?thesis
    using radix_inj [of col w col' row row'] assms by simp
qed

lemma radix_split:
  fixes i n m :: int
  assumes "0 \<le> i" "i < m * n" "0 < n"
  shows "0 \<le> i mod n \<and> i mod n < n \<and> 0 \<le> i div n \<and> i div n < m \<and> (i div n) * n + i mod n = i"
proof -
  have "i div n < m"
  proof (rule ccontr)
    assume "\<not> i div n < m"
    then have "m * n \<le> (i div n) * n"
      using assms by (intro mult_right_mono) auto
    moreover have "(i div n) * n \<le> i"
      using assms div_mult_mod_eq [of i n] pos_mod_sign [of n i] by linarith
    ultimately show False using assms by linarith
  qed
  moreover have "0 \<le> i div n" using assms by (simp add: pos_imp_zdiv_nonneg_iff)
  ultimately show ?thesis using assms by simp
qed

lemma pixel_index_surj:
  assumes "0 \<le> i" "i < w * h * ch" "0 < w" "0 < h" "0 < ch"
  shows "\<exists>col row c. 0 \<le> col \<and> col < w \<and> 0 \<le> row \<and> row < h \<and> 0 \<le> c \<and> c < ch
           \<and> pixel_index soa w h ch col row c = i"
proof (cases soa)
  case True
  have hw: "0 < h * w" using assms by simp
  have "i < ch * (h * w)" using assms by (simp add: algebra_simps)
  then have 1: "0 \<le> i mod (h * w) \<and> i mod (h * w) < h * w \<and> 0 \<le> i div (h * w)
        \<and> i div (h * w) < ch \<and> (i div (h * w)) * (h * w) + i mod (h * w) = i"
    using radix_split [of i ch "h * w"] assms hw by simp
  define q where "q = i mod (h * w)"
  have 2: "0 \<le> q mod w \<and> q mod w < w \<and> 0 \<le> q div w \<and> q div w < h \<and> (q div w) * w + q mod w = q"
    using radix_split [of q h w] 1 assms by (simp add: q_def)
  have "pixel_index soa w h ch (q mod w) (q div w) (i div (h * w)) = i"
    using True 1 2 by (simp add: pixel_index_def q_def algebra_simps)
  then show ?thesis using 1 2 by blast
next
  case False
  have hw: "0 < h * w" using assms by simp
  have "i < (h * w) * ch" using assms by (simp add: algebra_simps)
  then have 1: "0 \<le> i mod ch \<and> i mod ch < ch \<and> 0 \<le> i div ch
        \<and> i div ch < h * w \<and> (i div ch) * ch + i mod ch = i"
    using radix_split [of i "h * w" ch] assms by simp
  define q where "q = i div ch"
  have 2: "0 \<le> q mod w \<and> q mod w < w \<and> 0 \<le> q div w \<and> q div w < h \<and> (q div w) * w + q mod w = q"
    using radix_split [of q h w] 1 assms by (simp add: q_def)
  have "pixel_index soa w h ch (q mod w) (q div w) (i mod ch) = i"
    using False 1 2 by (simp add: pixel_index_def q_def)
  then show ?thesis using 1 2 by blast
qed

lemma in_set_upto0 [simp]: "x \<in> set [0..n - 1] \<longleftrightarrow> 0 \<le> x \<and> x < n"
  by auto

lemma set_box [simp]:
  "(c, y, x) \<in> set (box C H W) \<longleftrightarrow> (0 \<le> c \<and> c < C) \<and> (0 \<le> y \<and> y < H) \<and> (0 \<le> x \<and> x < W)"
  by (simp add: box_def)

lemma distinct_box [simp]: "distinct (box C H W)"
  by (simp add: box_def distinct_product)

lemma for_loop_e_eq: "for_loop_e n body = for_each [0..n - 1] body"
  by (rule ext) (simp add: for_loop_e_def)

lemma for_loop_eq: "for_loop n body = fold body [0..n - 1]"
  by (rule ext) (simp add: for_loop_def)

lemma for_each_product3:
  "for_each cs (\<lambda>c. for_each ys (\<lambda>y. for_each xs (body c y))) s
   = for_each (List.product cs (List.product ys xs)) (\<lambda>(c, y, x). body c y x) s"
proof -
  have inner: "for_each ys (\<lambda>y. for_each xs (body c y))
             = for_each (List.product ys xs) (\<lambda>(y, x). body c y x)" for c
    by (rule ext) (rule for_each_product)
  show ?thesis
    unfolding inner
    by (rule for_each_product [of cs "List.product ys xs" "\<lambda>c (y, x). body c y x" s])
qed

lemma fold_product3:
  "fold (\<lambda>c. fold (\<lambda>y. fold (body c y) xs) ys) cs s
   = fold (\<lambda>(c, y, x). body c y x) (List.product cs (List.product ys xs)) s"
proof -
  have inner: "fold (\<lambda>y. fold (body c y) xs) ys
             = fold (\<lambda>(y, x). body c y x) (List.product ys xs)" for c
    by (rule ext) (rule fold_product)
  show ?thesis
    unfolding inner
    by (rule fold_product [of "\<lambda>c (y, x). body c y x" "List.product ys xs" cs s])
qed

lemma for_loop_e_nest:
  "for_loop_e C (\<lambda>c. for_loop_e H (\<lambda>y. for_loop_e W (\<lambda>x. body c y x))) s
   = for_each (box C H W) (\<lambda>(c, y, x). body c y x) s"
  unfolding for_loop_e_eq box_def by (rule for_each_product3)

lemma for_loop_nest:
  "for_loop C (\<lambda>c. for_loop H (\<lambda>y. for_loop W (\<lambda>x. body c y x))) s
   = fold (\<lambda>(c, y, x). body c y x) (box C H W) s"
  unfolding for_loop_eq box_def by (rule fold_product3)

lemma for_each_Image_set:
  assumes "\<And>c y x out. (c, y, x) \<in> set ps \<Longrightarrow> width out = W \<Longrightarrow> height out = H
             \<Longrightarrow> channels out = C \<Longrightarrow> B c y x out = Image_set out x y c (f c y x)"
    and "\<And>c y x. (c, y, x) \<in> set ps \<Longrightarrow> (0 \<le> c \<and> c < C) \<and> (0 \<le> y \<and> y < H) \<and> (0 \<le> x \<and> x < W)"
    and "width out = W" "height out = H" "channels out = C"
  shows "for_each ps (\<lambda>(c, y, x). B c y x) out
         = Inr (out\<lparr>data := fold (\<lambda>(c, y, x) d.
                    d[nat (pixel_index (is_SoA out) W H C x y c) := f c y x]) ps (data out)\<rparr>)"
  using assms
proof (induction ps arbitrary: out)
  case Nil
  then show ?case by simp
next
  case (Cons p ps)
  obtain c y x where p: "p = (c, y, x)" by (cases p) auto
  have rng: "(0 \<le> c \<and> c < C) \<and> (0 \<le> y \<and> y < H) \<and> (0 \<le> x \<and> x < W)"
    using Cons.prems(2) [of c y x] p by simp
  define out' where "out' = out\<lparr>data := (data out)[nat (pixel_index (is_SoA out) W H C x y c) := f c y x]\<rparr>"
  have step: "B c y x out = Inr out'"
    using Cons.prems(1) [of c y x out] p rng Cons.prems(3-5)
    by (simp add: Image_set_def coords_invalid_def Image_index_def out'_def)
  have "for_each ps (\<lambda>(c, y, x). B c y x) out'
         = Inr (out'\<lparr>data := fold (\<lambda>(c, y, x) d.
                    d[nat (pixel_index (is_SoA out') W H C x y c) := f c y x]) ps (data out')\<rparr>)"
  proof (rule Cons.IH)
    show "B c y x out = Image_set out x y c (f c y x)"
      if "(c, y, x) \<in> set ps" "width out = W" "height out = H" "channels out = C" for c y x out
      using that Cons.prems(1) [of c y x out] by simp
    show "(0 \<le> c \<and> c < C) \<and> (0 \<le> y \<and> y < H) \<and> (0 \<le> x \<and> x < W)"
      if "(c, y, x) \<in> set ps" for c y x
      using that Cons.prems(2) [of c y x] by simp
    show "width out' = W" "height out' = H" "channels out' = C"
      using Cons.prems(3-5) by (simp_all add: out'_def)
  qed
  then show ?case
    using step by (simp add: p out'_def)
qed

lemma box_index_distinct:
  "distinct (map (\<lambda>(c, y, x). nat (pixel_index soa W H C x y c)) (box C H W))"
proof -
  have "inj_on (\<lambda>(c, y, x). nat (pixel_index soa W H C x y c)) (set (box C H W))"
  proof (rule inj_onI)
    fix p q
    assume pq: "p \<in> set (box C H W)" "q \<in> set (box C H W)"
      and e': "(case p of (c, y, x) \<Rightarrow> nat (pixel_index soa W H C x y c))
             = (case q of (c, y, x) \<Rightarrow> nat (pixel_index soa W H C x y c))"
    obtain c y x where p: "p = (c, y, x)" by (cases p) auto
    obtain c' y' x' where q: "q = (c', y', x')" by (cases q) auto
    have a: "(c, y, x) \<in> set (box C H W)" "(c', y', x') \<in> set (box C H W)"
      using pq p q by simp_all
    have e: "nat (pixel_index soa W H C x y c) = nat (pixel_index soa W H C x' y' c')"
      using e' p q by simp
    have "0 \<le> pixel_index soa W H C x y c" "0 \<le> pixel_index soa W H C x' y' c'"
      using a pixel_index_bound [of x W y H c C soa] pixel_index_bound [of x' W y' H c' C soa]
      by simp_all
    with e have "pixel_index soa W H C x y c = pixel_index soa W H C x' y' c'"
      by simp
    then have "c = c' \<and> y = y' \<and> x = x'"
      using a pixel_index_inj [of x W y H c C x' y' c' soa] by simp
    then show "p = q" using p q by simp
  qed
  then show ?thesis
    by (simp add: distinct_map)
qed

text \<open>A loop nest that assigns \<open>f c y x\<close> to pixel \<open>(x, y, c)\<close> of an image for
  every coordinate builds the image whose pixels are given by \<open>f\<close>.\<close>

lemma for_loop_e_Image_set:
  assumes B: "\<And>c y x out. 0 \<le> c \<Longrightarrow> c < C \<Longrightarrow> 0 \<le> y \<Longrightarrow> y < H \<Longrightarrow> 0 \<le> x \<Longrightarrow> x < W
             \<Longrightarrow> width out = W \<Longrightarrow> height out = H \<Longrightarrow> channels out = C
             \<Longrightarrow> B c y x out = Image_set out x y c (f c y x)"
    and dims: "width out0 = W" "height out0 = H" "channels out0 = C"
    and len: "length (data out0) = nat (W * H * C)"
  shows "\<exists>out. for_loop_e C (\<lambda>c. for_loop_e H (\<lambda>y. for_loop_e W (\<lambda>x. B c y x))) out0 = Inr out
           \<and> width out = W \<and> height out = H \<and> channels out = C \<and> is_SoA out = is_SoA out0
           \<and> length (data out) = nat (W * H * C)
           \<and> (\<forall>c y x. 0 \<le> c \<and> c < C \<and> 0 \<le> y \<and> y < H \<and> 0 \<le> x \<and> x < W
                \<longrightarrow> Image_at out x y c = Inr (f c y x))"
proof -
  define ix where "ix = (\<lambda>(c, y, x). nat (pixel_index (is_SoA out0) W H C x y c))"
  define d where "d = fold (\<lambda>p d. d[ix p := (\<lambda>(c, y, x). f c y x) p]) (box C H W) (data out0)"
  define out where "out = out0\<lparr>data := d\<rparr>"
  have d_alt: "d = fold (\<lambda>(c, y, x) d. d[nat (pixel_index (is_SoA out0) W H C x y c) := f c y x])
                     (box C H W) (data out0)"
    unfolding d_def ix_def by (rule arg_cong [where f = "\<lambda>g. fold g (box C H W) (data out0)"]) auto
  have run: "for_loop_e C (\<lambda>c. for_loop_e H (\<lambda>y. for_loop_e W (\<lambda>x. B c y x))) out0 = Inr out"
    unfolding for_loop_e_nest out_def d_alt
    using dims by (intro for_each_Image_set) (auto intro: B)
  have len_d: "length d = nat (W * H * C)"
    by (simp add: d_def len)
  have px: "Image_at out x y c = Inr (f c y x)"
    if r: "0 \<le> c \<and> c < C \<and> 0 \<le> y \<and> y < H \<and> 0 \<le> x \<and> x < W" for c y x
  proof -
    have b: "0 \<le> pixel_index (is_SoA out0) W H C x y c \<and> pixel_index (is_SoA out0) W H C x y c < W * H * C"
      using r pixel_index_bound [of x W y H c C] by simp
    have "d ! ix (c, y, x) = (\<lambda>(c, y, x). f c y x) (c, y, x)"
      unfolding d_def
    proof (rule nth_fold_update)
      show "distinct (map ix (box C H W))"
        unfolding ix_def by (rule box_index_distinct)
      show "(c, y, x) \<in> set (box C H W)" using r by simp
      show "ix (c, y, x) < length (data out0)"
        using b len by (simp add: ix_def)
    qed
    then show ?thesis
      using r dims by (simp add: Image_at_def coords_invalid_def Image_index_def out_def ix_def)
  qed
  show ?thesis
    using run px len_d dims by (intro exI [of _ out]) (simp add: out_def)
qed

lemma Image_eqI:
  assumes "width a = width b" "height a = height b" "channels a = channels b"
    "is_SoA a = is_SoA b" "wf_image a" "length (data b) = get_size b"
    and px: "\<And>c y x. 0 \<le> c \<Longrightarrow> c < channels a \<Longrightarrow> 0 \<le> y \<Longrightarrow> y < height a \<Longrightarrow> 0 \<le> x \<Longrightarrow> x < width a
         \<Longrightarrow> Image_at a x y c = Image_at b x y c"
  shows "data a = data b"
proof (rule nth_equalityI)
  show "length (data a) = length (data b)"
    using assms by (simp add: wf_image_def get_size_def)
next
  fix i assume "i < length (data a)"
  then have i: "0 \<le> int i" "int i < width a * height a * channels a"
    using assms(5) by (simp_all add: wf_image_def get_size_def)
  obtain col row c where r: "0 \<le> col" "col < width a" "0 \<le> row" "row < height a" "0 \<le> c" "c < channels a"
    and e: "pixel_index (is_SoA a) (width a) (height a) (channels a) col row c = int i"
    using pixel_index_surj [OF i, of "is_SoA a"] assms(5) by (auto simp: wf_image_def)
  have "Image_at a col row c = Image_at b col row c"
    using r by (intro px) auto
  then show "data a ! i = data b ! i"
    using r e assms(1-4) by (simp add: Image_at_def coords_invalid_def Image_index_def)
qed

section \<open>Padding\<close>

lemma padding_step_value:
  "padding_step img pw ph pt c y x padded
   = ebind (padding_value img pw ph pt c y x) (Image_set padded x y c)"
  by (cases pt) (simp_all add: padding_step_def padding_value_def Let_def)

lemma smod_nonneg_less:
  fixes v n :: int
  shows "0 \<le> v \<Longrightarrow> v < n \<Longrightarrow> v smod n = v"
  by (simp add: signed_modulo_int_def sgn_if)

lemma smod_neg_less:
  fixes v n :: int
  shows "v < 0 \<Longrightarrow> - n < v \<Longrightarrow> v smod n = v"
  by (simp add: signed_modulo_int_def sgn_if)

lemma mirror_index_eq:
  assumes "0 < w" "- w < v" "v < 2 * w - 1"
  shows "mirror_index w v = (if v < 0 then - v else if v < w then v else 2 * w - 2 - v)"
proof (cases "v < 0")
  case True
  then have "v smod (2 * w) = v"
    using assms by (intro smod_neg_less) auto
  then show ?thesis using True assms by (simp add: mirror_index_def Let_def)
next
  case False
  then have "v smod (2 * w) = v"
    using assms by (intro smod_nonneg_less) auto
  then show ?thesis using False assms by (auto simp: mirror_index_def Let_def)
qed

lemma mirror_index_range:
  assumes "0 < w" "- w < v" "v < 2 * w - 1"
  shows "0 \<le> mirror_index w v \<and> mirror_index w v < w"
  using assms by (simp add: mirror_index_eq)

lemma Image_new_dims [simp]:
  "width (Image_new w h c soa) = w" "height (Image_new w h c soa) = h"
  "channels (Image_new w h c soa) = c" "is_SoA (Image_new w h c soa) = soa"
  "length (data (Image_new w h c soa)) = nat (w * h * c)"
  by (simp_all add: Image_new_def)

text \<open>Padding succeeds as soon as every read of the source is in range, and then each
  destination pixel holds the value \<open>padding_value\<close> describes.\<close>

lemma padding_pixels:
  assumes pos: "0 \<le> pw" "0 \<le> ph"
    and ok: "\<And>c y x. 0 \<le> c \<Longrightarrow> c < channels img \<Longrightarrow> 0 \<le> y \<Longrightarrow> y < height img + ph * 2
               \<Longrightarrow> 0 \<le> x \<Longrightarrow> x < width img + pw * 2
               \<Longrightarrow> padding_value img pw ph pt c y x = Inr (f c y x)"
  shows "\<exists>p. padding img pw ph pt = Inr p
           \<and> width p = width img + pw * 2 \<and> height p = height img + ph * 2
           \<and> channels p = channels img \<and> is_SoA p = is_SoA img
           \<and> length (data p) = nat ((width img + pw * 2) * (height img + ph * 2) * channels img)
           \<and> (\<forall>c y x. 0 \<le> c \<and> c < channels img \<and> 0 \<le> y \<and> y < height img + ph * 2
                  \<and> 0 \<le> x \<and> x < width img + pw * 2
                \<longrightarrow> Image_at p x y c = Inr (f c y x))"
proof -
  define W where "W = width img + pw * 2"
  define H where "H = height img + ph * 2"
  define C where "C = channels img"
  have "\<exists>out. for_loop_e C (\<lambda>c. for_loop_e H (\<lambda>y. for_loop_e W (\<lambda>x.
                  padding_step img pw ph pt c y x))) (Image_new W H C (is_SoA img)) = Inr out
           \<and> width out = W \<and> height out = H \<and> channels out = C
           \<and> is_SoA out = is_SoA (Image_new W H C (is_SoA img))
           \<and> length (data out) = nat (W * H * C)
           \<and> (\<forall>c y x. 0 \<le> c \<and> c < C \<and> 0 \<le> y \<and> y < H \<and> 0 \<le> x \<and> x < W
                \<longrightarrow> Image_at out x y c = Inr (f c y x))"
  proof (rule for_loop_e_Image_set)
    show "padding_step img pw ph pt c y x out = Image_set out x y c (f c y x)"
      if "0 \<le> c" "c < C" "0 \<le> y" "y < H" "0 \<le> x" "x < W" for c y x out
      using that ok [of c y x] by (simp add: padding_step_value C_def H_def W_def)
  qed simp_all
  then show ?thesis
    using pos by (simp add: padding_def Let_def W_def H_def C_def)
qed

lemma for_each_Inr_D:
  assumes "for_each ps (\<lambda>p s. ebind (val p) (g p s)) s = Inr s'" "p \<in> set ps"
  shows "\<exists>v. val p = Inr v"
  using assms
proof (induction ps arbitrary: s)
  case Nil
  then show ?case by simp
next
  case (Cons q ps)
  show ?case
  proof (cases "val q")
    case (Inl e)
    then show ?thesis using Cons.prems by simp
  next
    case (Inr v)
    show ?thesis
    proof (cases "p = q")
      case True
      then show ?thesis using Inr by simp
    next
      case False
      from Cons.prems(1) Inr obtain s1 where "g q s v = Inr s1"
        "for_each ps (\<lambda>p s. ebind (val p) (g p s)) s1 = Inr s'"
        by (auto split: sum.splits)
      then show ?thesis using Cons.IH [of s1] Cons.prems(2) False by simp
    qed
  qed
qed

lemma padding_Inr_D:
  assumes "padding img pw ph pt = Inr p"
  shows "0 \<le> pw \<and> 0 \<le> ph"
    and "0 \<le> c \<Longrightarrow> c < channels img \<Longrightarrow> 0 \<le> y \<Longrightarrow> y < height img + ph * 2
         \<Longrightarrow> 0 \<le> x \<Longrightarrow> x < width img + pw * 2
         \<Longrightarrow> \<exists>v. padding_value img pw ph pt c y x = Inr v"
proof -
  show pos: "0 \<le> pw \<and> 0 \<le> ph"
    using assms by (auto simp: padding_def split: if_splits)
  assume r: "0 \<le> c" "c < channels img" "0 \<le> y" "y < height img + ph * 2"
    "0 \<le> x" "x < width img + pw * 2"
  define W where "W = width img + pw * 2"
  define H where "H = height img + ph * 2"
  have "for_each (box (channels img) H W)
          (\<lambda>q s. ebind ((\<lambda>(c, y, x). padding_value img pw ph pt c y x) q)
                   ((\<lambda>(c, y, x) s. Image_set s x y c) q s))
          (Image_new W H (channels img) (is_SoA img)) = Inr p"
  proof -
    have eta: "padding_step img pw ph pt c y x
        = (\<lambda>s. ebind (padding_value img pw ph pt c y x) (Image_set s x y c))" for c y x
      by (rule ext) (rule padding_step_value)
    show ?thesis
      using assms pos
      by (simp add: padding_def Let_def for_loop_e_nest eta W_def H_def case_prod_unfold)
  qed
  from for_each_Inr_D [OF this, of "(c, y, x)"] r
  show "\<exists>v. padding_value img pw ph pt c y x = Inr v"
    by (simp add: W_def H_def)
qed

lemma Image_at_Inr:
  assumes "0 \<le> c" "c < channels img" "0 \<le> y" "y < height img" "0 \<le> x" "x < width img"
  shows "Image_at img x y c = Inr (data img ! nat (Image_index img x y c))"
  using assms by (simp add: Image_at_def coords_invalid_def)

lemma zero_padding_pixels:
  assumes wf: "wf_image img" and pos: "0 \<le> pw" "0 \<le> ph"
  shows "\<exists>padded. padding img pw ph ZERO = Inr padded
           \<and> width padded = width img + 2 * pw \<and> height padded = height img + 2 * ph
           \<and> channels padded = channels img \<and> is_SoA padded = is_SoA img
           \<and> wf_image padded
           \<and> (\<forall>c y x. 0 \<le> c \<and> c < channels img \<and> 0 \<le> y \<and> y < height img + 2 * ph
                  \<and> 0 \<le> x \<and> x < width img + 2 * pw
                \<longrightarrow> Image_at padded x y c
                    = (if pw \<le> x \<and> x < pw + width img \<and> ph \<le> y \<and> y < ph + height img
                       then Image_at img (x - pw) (y - ph) c else Inr 0))"
proof -
  define f where "f = (\<lambda>c y x. if pw \<le> x \<and> x < pw + width img \<and> ph \<le> y \<and> y < ph + height img
      then data img ! nat (Image_index img (x - pw) (y - ph) c) else 0)"
  have ok: "padding_value img pw ph ZERO c y x = Inr (f c y x)"
    if "0 \<le> c" "c < channels img" for c y x
    using that by (auto simp: padding_value_def f_def Image_at_Inr)
  obtain p where p: "padding img pw ph ZERO = Inr p"
    "width p = width img + pw * 2" "height p = height img + ph * 2"
    "channels p = channels img" "is_SoA p = is_SoA img"
    "length (data p) = nat ((width img + pw * 2) * (height img + ph * 2) * channels img)"
    and px: "\<And>c y x. 0 \<le> c \<and> c < channels img \<and> 0 \<le> y \<and> y < height img + ph * 2
                  \<and> 0 \<le> x \<and> x < width img + pw * 2
                \<Longrightarrow> Image_at p x y c = Inr (f c y x)"
    using padding_pixels [OF pos, of img ZERO f] ok by blast
  have "wf_image p"
    using wf pos p by (simp add: wf_image_def get_size_def)
  moreover have "Image_at p x y c
        = (if pw \<le> x \<and> x < pw + width img \<and> ph \<le> y \<and> y < ph + height img
           then Image_at img (x - pw) (y - ph) c else Inr 0)"
    if "0 \<le> c \<and> c < channels img \<and> 0 \<le> y \<and> y < height img + 2 * ph
                  \<and> 0 \<le> x \<and> x < width img + 2 * pw" for c y x
    using that px [of c y x] by (auto simp: f_def Image_at_Inr)
  ultimately show ?thesis
    using p by (intro exI [of _ p]) (simp add: mult.commute)
qed

lemma mirror_padding_ok:
  assumes wf: "wf_image img" and pw: "0 \<le> pw" "pw < width img" and ph: "0 \<le> ph" "ph < height img"
    and r: "0 \<le> c" "c < channels img" "0 \<le> y" "y < height img + ph * 2" "0 \<le> x" "x < width img + pw * 2"
  shows "padding_value img pw ph MIRROR c y x
         = Inr (case padding_value img pw ph MIRROR c y x of Inr v \<Rightarrow> v | Inl e \<Rightarrow> 0)"
proof -
  have "0 \<le> mirror_index (width img) (x - pw) \<and> mirror_index (width img) (x - pw) < width img"
    using wf pw r by (intro mirror_index_range) (auto simp: wf_image_def)
  moreover have "0 \<le> mirror_index (height img) (y - ph) \<and> mirror_index (height img) (y - ph) < height img"
    using wf ph r by (intro mirror_index_range) (auto simp: wf_image_def)
  ultimately show ?thesis
    using r by (simp add: padding_value_def Let_def Image_at_Inr)
qed

lemma padding_Inr_pixels:
  assumes p: "padding img pw ph pt = Inr p"
  shows "width p = width img + pw * 2 \<and> height p = height img + ph * 2
         \<and> channels p = channels img \<and> is_SoA p = is_SoA img
         \<and> length (data p) = nat ((width img + pw * 2) * (height img + ph * 2) * channels img)"
    and "0 \<le> c \<Longrightarrow> c < channels img \<Longrightarrow> 0 \<le> y \<Longrightarrow> y < height img + ph * 2
         \<Longrightarrow> 0 \<le> x \<Longrightarrow> x < width img + pw * 2
         \<Longrightarrow> Image_at p x y c = padding_value img pw ph pt c y x"
proof -
  define f where "f = (\<lambda>c y x. case padding_value img pw ph pt c y x of Inr v \<Rightarrow> v | Inl e \<Rightarrow> 0)"
  have ok: "padding_value img pw ph pt c y x = Inr (f c y x)"
    if "0 \<le> c" "c < channels img" "0 \<le> y" "y < height img + ph * 2"
       "0 \<le> x" "x < width img + pw * 2" for c y x
    using padding_Inr_D(2) [OF p that] by (auto simp: f_def)
  have pos: "0 \<le> pw" "0 \<le> ph"
    using padding_Inr_D(1) [OF p] by simp_all
  obtain p' where p': "padding img pw ph pt = Inr p'"
    "width p' = width img + pw * 2 \<and> height p' = height img + ph * 2
     \<and> channels p' = channels img \<and> is_SoA p' = is_SoA img
     \<and> length (data p') = nat ((width img + pw * 2) * (height img + ph * 2) * channels img)"
    and px: "\<And>c y x. 0 \<le> c \<and> c < channels img \<and> 0 \<le> y \<and> y < height img + ph * 2
                  \<and> 0 \<le> x \<and> x < width img + pw * 2
                \<Longrightarrow> Image_at p' x y c = Inr (f c y x)"
    using padding_pixels [OF pos, of img pt f] ok by blast
  have eq: "p' = p" using p p'(1) by simp
  show "width p = width img + pw * 2 \<and> height p = height img + ph * 2
         \<and> channels p = channels img \<and> is_SoA p = is_SoA img
         \<and> length (data p) = nat ((width img + pw * 2) * (height img + ph * 2) * channels img)"
    using p'(2) eq by simp
  assume r: "0 \<le> c" "c < channels img" "0 \<le> y" "y < height img + ph * 2"
       "0 \<le> x" "x < width img + pw * 2"
  show "Image_at p x y c = padding_value img pw ph pt c y x"
    using px [of c y x] ok [OF r] r eq by simp
qed

lemma mirror_index_formula:
  assumes "0 < n"
  shows "mirror_index n v = (let m = \<bar>v\<bar> mod (2 * n) in min m (2 * n - 2 - m))"
proof -
  have "0 \<le> \<bar>v\<bar> mod (2 * n)" using assms by simp
  then have "\<bar>v smod (2 * n)\<bar> = \<bar>v\<bar> mod (2 * n)"
    using assms by (cases "v = 0") (simp_all add: signed_modulo_int_def abs_mult abs_sgn_eq)
  then show ?thesis by (simp add: mirror_index_def Let_def)
qed

lemma wf_raster4: "wf_image raster4"
  by (simp add: wf_image_def raster4_def Image_from_def Image_new_def get_size_def)

lemma padding_raster4_mirror: "padding raster4 1 1 MIRROR = Inr raster4_mirrored"
  by code_simp

text \<open>
  Claim C5. ZERO padding of a well-formed raster of width W and height H by \<open>(p, p)\<close>, for
  any \<open>p \<ge> 0\<close> for which the size of the padded raster, \<open>(W + 2p) * (H + 2p)\<close> times the
  channel count, is at most \<open>INT_MAX\<close>, returns a raster of width \<open>W + 2p\<close> and height
  \<open>H + 2p\<close> with the same channel count and layout tag and a buffer of matching size;
  every pixel of the border ring of thickness \<open>p\<close> is zero in every channel, and the
  pixel at \<open>(x, y)\<close> of the interior equals the pixel at \<open>(x - p, y - p)\<close> of the original.
\<close>

theorem zero_padding:
  assumes "wf_image img" "0 \<le> p"
    and "(width img + 2 * p) * (height img + 2 * p) * channels img \<le> INT_MAX"
  shows "\<exists>padded. padding img p p ZERO = Inr padded
           \<and> width padded = width img + 2 * p \<and> height padded = height img + 2 * p
           \<and> channels padded = channels img \<and> is_SoA padded = is_SoA img
           \<and> wf_image padded
           \<and> (\<forall>c y x. 0 \<le> c \<and> c < channels img \<and> 0 \<le> y \<and> y < height img + 2 * p
                  \<and> 0 \<le> x \<and> x < width img + 2 * p
                \<longrightarrow> Image_at padded x y c
                    = (if p \<le> x \<and> x < p + width img \<and> p \<le> y \<and> y < p + height img
                       then Image_at img (x - p) (y - p) c else Inr 0))"
  using zero_padding_pixels [OF assms(1) assms(2) assms(2)] .

theorem zero_padding_witness:
  "wf_image raster4 \<and> (0 :: int) \<le> 1
   \<and> (width raster4 + 2 * 1) * (height raster4 + 2 * 1) * channels raster4 \<le> INT_MAX
   \<and> (\<exists>padded. padding raster4 1 1 ZERO = Inr padded
         \<and> width padded = 6 \<and> height padded = 6 \<and> channels padded = 1
         \<and> is_SoA padded = is_SoA raster4 \<and> wf_image padded
         \<and> Image_at padded 0 0 0 = Inr 0 \<and> Image_at padded 5 3 0 = Inr 0
         \<and> Image_at padded 1 1 0 = Image_at raster4 0 0 0
         \<and> Image_at padded 4 2 0 = Image_at raster4 3 1 0)"
proof -
  have dims: "width raster4 = 4" "height raster4 = 4" "channels raster4 = 1"
    by (simp_all add: raster4_def Image_from_def Image_new_def)
  obtain padded where p: "padding raster4 1 1 ZERO = Inr padded"
    "width padded = 6" "height padded = 6" "channels padded = 1"
    "is_SoA padded = is_SoA raster4" "wf_image padded"
    and px: "\<And>c y x. 0 \<le> c \<and> c < 1 \<and> 0 \<le> y \<and> y < 6 \<and> 0 \<le> x \<and> x < 6
                \<Longrightarrow> Image_at padded x y c
                    = (if 1 \<le> x \<and> x < 5 \<and> 1 \<le> y \<and> y < 5
                       then Image_at raster4 (x - 1) (y - 1) c else Inr 0)"
    using zero_padding [OF wf_raster4, of 1] by (auto simp: dims INT_MAX_def)
  show ?thesis
    using wf_raster4 p px [of 0 0 0] px [of 0 3 5] px [of 0 1 1] px [of 0 2 4]
    by (intro conjI exI [of _ padded]) (simp_all add: dims INT_MAX_def)
qed

text \<open>
  Claim C8. For a raster of positive width and height and a MIRROR padding call with
  \<open>0 \<le> pad_w < width\<close> and \<open>0 \<le> pad_h < height\<close>, both folded coordinates that the mirror
  branch computes for a destination pixel lie inside the raster, and the call returns a
  raster: no read of the source throws.
\<close>

theorem mirror_padding_in_bounds:
  assumes "wf_image img" "0 \<le> pw" "pw < width img" "0 \<le> ph" "ph < height img"
  shows "(\<forall>y x. 0 \<le> y \<and> y < height img + 2 * ph \<and> 0 \<le> x \<and> x < width img + 2 * pw
            \<longrightarrow> 0 \<le> mirror_index (width img) (x - pw)
                \<and> mirror_index (width img) (x - pw) < width img
                \<and> 0 \<le> mirror_index (height img) (y - ph)
                \<and> mirror_index (height img) (y - ph) < height img)
         \<and> (\<exists>padded. padding img pw ph MIRROR = Inr padded)"
proof (intro conjI allI impI)
  fix y x
  assume r: "0 \<le> y \<and> y < height img + 2 * ph \<and> 0 \<le> x \<and> x < width img + 2 * pw"
  have "0 \<le> mirror_index (width img) (x - pw) \<and> mirror_index (width img) (x - pw) < width img"
    using assms r by (intro mirror_index_range) (auto simp: wf_image_def)
  then show "0 \<le> mirror_index (width img) (x - pw)"
    and "mirror_index (width img) (x - pw) < width img" by simp_all
  have "0 \<le> mirror_index (height img) (y - ph) \<and> mirror_index (height img) (y - ph) < height img"
    using assms r by (intro mirror_index_range) (auto simp: wf_image_def)
  then show "0 \<le> mirror_index (height img) (y - ph)"
    and "mirror_index (height img) (y - ph) < height img" by simp_all
next
  show "\<exists>padded. padding img pw ph MIRROR = Inr padded"
    using padding_pixels [of pw ph img MIRROR
        "\<lambda>c y x. case padding_value img pw ph MIRROR c y x of Inr v \<Rightarrow> v | Inl e \<Rightarrow> 0"]
      mirror_padding_ok [OF assms] assms(2,4)
    by blast
qed

theorem mirror_padding_in_bounds_witness:
  "wf_image raster4 \<and> (0 :: int) \<le> 1 \<and> 1 < width raster4 \<and> 1 < height raster4
   \<and> 0 \<le> mirror_index (width raster4) (0 - 1) \<and> mirror_index (width raster4) (0 - 1) < width raster4
   \<and> 0 \<le> mirror_index (height raster4) (5 - 1) \<and> mirror_index (height raster4) (5 - 1) < height raster4
   \<and> (\<exists>padded. padding raster4 1 1 MIRROR = Inr padded)"
proof -
  have dims: "width raster4 = 4" "height raster4 = 4"
    by (simp_all add: raster4_def Image_from_def Image_new_def)
  have h: "1 < width raster4" "1 < height raster4" "(0 :: int) \<le> 1"
    by (simp_all add: dims)
  note t = mirror_padding_in_bounds [OF wf_raster4 h(3) h(1) h(3) h(2)]
  from t have a: "0 \<le> y \<and> y < height raster4 + 2 * 1 \<and> 0 \<le> x \<and> x < width raster4 + 2 * 1
            \<Longrightarrow> 0 \<le> mirror_index (width raster4) (x - 1)
                \<and> mirror_index (width raster4) (x - 1) < width raster4
                \<and> 0 \<le> mirror_index (height raster4) (y - 1)
                \<and> mirror_index (height raster4) (y - 1) < height raster4" for y x
    by blast
  from t have b: "\<exists>padded. padding raster4 1 1 MIRROR = Inr padded"
    by blast
  have "0 \<le> mirror_index (width raster4) (0 - 1)
                \<and> mirror_index (width raster4) (0 - 1) < width raster4
                \<and> 0 \<le> mirror_index (height raster4) (5 - 1)
                \<and> mirror_index (height raster4) (5 - 1) < height raster4"
    using a [of 5 0] by (simp add: dims)
  then show ?thesis
    using wf_raster4 h b by blast
qed

text \<open>
  Claim C3, as amended. The MIRROR fold of a coordinate \<open>v\<close> against a dimension \<open>n\<close> is
  \<open>min m (2n - 2 - m)\<close> with \<open>m = |v| mod 2n\<close> (the absolute value of the C++ remainder);
  whenever MIRROR padding returns, a destination pixel whose source position
  \<open>(x - pad_w, y - pad_h)\<close> lies outside the raster holds the source pixel at the two
  folded coordinates, the column folded against the width and the row against the
  height. For the 4 by 4 raster padded by 1, index \<open>-1\<close> folds to 1 and padded pixel
  \<open>(0, 0)\<close> equals original pixel \<open>(1, 1)\<close>.
\<close>

theorem mirror_padding_pixels:
  assumes "padding img pw ph MIRROR = Inr padded"
  shows "(\<forall>n v. 0 < n \<longrightarrow>
            mirror_index n v = (let m = \<bar>v\<bar> mod (2 * n) in min m (2 * n - 2 - m)))
         \<and> (\<forall>c y x. 0 \<le> c \<and> c < channels img \<and> 0 \<le> y \<and> y < height img + 2 * ph
                \<and> 0 \<le> x \<and> x < width img + 2 * pw
                \<and> \<not> (0 \<le> x - pw \<and> x - pw < width img \<and> 0 \<le> y - ph \<and> y - ph < height img)
              \<longrightarrow> Image_at padded x y c
                  = Image_at img (mirror_index (width img) (x - pw))
                      (mirror_index (height img) (y - ph)) c)"
proof (intro conjI allI impI)
  fix n v :: int
  assume "0 < n"
  then show "mirror_index n v = (let m = \<bar>v\<bar> mod (2 * n) in min m (2 * n - 2 - m))"
    by (rule mirror_index_formula)
next
  fix c y x
  assume r: "0 \<le> c \<and> c < channels img \<and> 0 \<le> y \<and> y < height img + 2 * ph
                \<and> 0 \<le> x \<and> x < width img + 2 * pw
                \<and> \<not> (0 \<le> x - pw \<and> x - pw < width img \<and> 0 \<le> y - ph \<and> y - ph < height img)"
  then have "Image_at padded x y c = padding_value img pw ph MIRROR c y x"
    using padding_Inr_pixels(2) [OF assms, of c y x] by simp
  also have "\<dots> = Image_at img (mirror_index (width img) (x - pw))
                      (mirror_index (height img) (y - ph)) c"
    using r by (auto simp: padding_value_def Let_def)
  finally show "Image_at padded x y c
                  = Image_at img (mirror_index (width img) (x - pw))
                      (mirror_index (height img) (y - ph)) c" .
qed

theorem mirror_padding_pixels_witness:
  "padding raster4 1 1 MIRROR = Inr raster4_mirrored
   \<and> mirror_index 4 (- 1) = (let m = \<bar>- 1\<bar> mod (2 * 4) in min m (2 * 4 - 2 - m))
   \<and> mirror_index 4 (- 1) = 1
   \<and> Image_at raster4_mirrored 0 0 0
       = Image_at raster4 (mirror_index (width raster4) (0 - 1))
           (mirror_index (height raster4) (0 - 1)) 0
   \<and> Image_at raster4_mirrored 0 0 0 = Image_at raster4 1 1 0"
proof -
  have dims: "width raster4 = 4" "height raster4 = 4" "channels raster4 = 1"
    by (simp_all add: raster4_def Image_from_def Image_new_def)
  from mirror_padding_pixels [OF padding_raster4_mirror]
  have f: "\<And>n v. 0 < n \<Longrightarrow>
            mirror_index n v = (let m = \<bar>v\<bar> mod (2 * n) in min m (2 * n - 2 - m))"
    and px: "\<And>c y x. 0 \<le> c \<and> c < channels raster4 \<and> 0 \<le> y \<and> y < height raster4 + 2 * 1
                \<and> 0 \<le> x \<and> x < width raster4 + 2 * 1
                \<and> \<not> (0 \<le> x - 1 \<and> x - 1 < width raster4 \<and> 0 \<le> y - 1 \<and> y - 1 < height raster4)
              \<Longrightarrow> Image_at raster4_mirrored x y c
                  = Image_at raster4 (mirror_index (width raster4) (x - 1))
                      (mirror_index (height raster4) (y - 1)) c"
    by blast+
  have m: "mirror_index 4 (- 1) = 1"
    using f [of 4 "- 1"] by simp
  have "Image_at raster4_mirrored 0 0 0
       = Image_at raster4 (mirror_index (width raster4) (0 - 1))
           (mirror_index (height raster4) (0 - 1)) 0"
    using px [of 0 0 0] by (simp add: dims)
  then show ?thesis
    using padding_raster4_mirror f [of 4 "- 1"] m by (simp add: dims)
qed

text \<open>
  The claim as stated fails: the fold subtracts one more than the claim says (index 4
  of a width 4 goes to 2, not 3), index \<open>-1\<close> goes to 1, and padded pixel \<open>(0, 0)\<close> of
  the 4 by 4 raster is original pixel \<open>(1, 1)\<close>, which differs from original pixel \<open>(0, 0)\<close>.
\<close>

theorem mirror_padding_counterexample:
  "padding raster4 1 1 MIRROR = Inr raster4_mirrored
   \<and> Image_at raster4_mirrored 0 0 0 = Inr 5
   \<and> Image_at raster4 0 0 0 = Inr 0
   \<and> Image_at raster4 1 1 0 = Inr 5
   \<and> mirror_index 4 (- 1) = 1
   \<and> mirror_index 4 4 = 2
   \<and> mirror_index 4 4 \<noteq> min \<bar>4 mod (2 * 4)\<bar> (2 * 4 - 1 - \<bar>4 mod (2 * 4)\<bar>)"
  using padding_raster4_mirror
  by (simp add: mirror_index_def signed_modulo_int_def Image_at_def coords_invalid_def
      Image_index_def pixel_index_def raster4_def raster4_mirrored_def Image_from_def
      Image_new_def)

section \<open>Layout conversion\<close>

text \<open>A loop nest that writes \<open>v c y x\<close> at the index of pixel \<open>(x, y, c)\<close> of a flat
  buffer.\<close>

lemma update_loop:
  "for_loop C (\<lambda>c. for_loop H (\<lambda>y. for_loop W (\<lambda>x d.
       d[nat (pixel_index soa W H C x y c) := v c y x]))) d0
   = fold (\<lambda>p d. d[(\<lambda>(c, y, x). nat (pixel_index soa W H C x y c)) p
                  := (\<lambda>(c, y, x). v c y x) p])
       (box C H W) d0"
  unfolding for_loop_nest
  by (rule arg_cong [where f = "\<lambda>g. fold g (box C H W) d0"]) auto

lemma update_loop_nth:
  assumes "0 \<le> c" "c < C" "0 \<le> y" "y < H" "0 \<le> x" "x < W" "length d0 = nat (W * H * C)"
  shows "for_loop C (\<lambda>c. for_loop H (\<lambda>y. for_loop W (\<lambda>x d.
       d[nat (pixel_index soa W H C x y c) := v c y x]))) d0
         ! nat (pixel_index soa W H C x y c)
       = v c y x"
proof -
  have b: "0 \<le> pixel_index soa W H C x y c \<and> pixel_index soa W H C x y c < W * H * C"
    using assms pixel_index_bound [of x W y H c C soa] by simp
  have "fold (\<lambda>p d. d[(\<lambda>(c, y, x). nat (pixel_index soa W H C x y c)) p
                  := (\<lambda>(c, y, x). v c y x) p])
       (box C H W) d0 ! (\<lambda>(c, y, x). nat (pixel_index soa W H C x y c)) (c, y, x)
     = (\<lambda>(c, y, x). v c y x) (c, y, x)"
  proof (rule nth_fold_update)
    show "distinct (map (\<lambda>(c, y, x). nat (pixel_index soa W H C x y c)) (box C H W))"
      by (rule box_index_distinct)
    show "(c, y, x) \<in> set (box C H W)" using assms by simp
    show "(case (c, y, x) of (c, y, x) \<Rightarrow> nat (pixel_index soa W H C x y c)) < length d0"
      using b assms by simp
  qed
  then show ?thesis by (simp add: update_loop)
qed

lemma update_loop_length:
  "length (for_loop C (\<lambda>c. for_loop H (\<lambda>y. for_loop W (\<lambda>x d.
       d[nat (pixel_index soa W H C x y c) := v c y x]))) d0)
   = length d0"
  by (simp add: update_loop)

lemma AoS_to_SoA_alt:
  "AoS_to_SoA img = img\<lparr>data :=
     for_loop (channels img) (\<lambda>c. for_loop (height img) (\<lambda>y. for_loop (width img) (\<lambda>x d.
       d[nat (pixel_index True (width img) (height img) (channels img) x y c)
           := data img ! nat (pixel_index False (width img) (height img) (channels img) x y c)])))
     (replicate (get_size img) 0)\<rparr>"
  by (simp add: AoS_to_SoA_def Let_def pixel_index_def)

lemma SoA_to_AoS_alt:
  "SoA_to_AoS img = img\<lparr>data :=
     for_loop (channels img) (\<lambda>c. for_loop (height img) (\<lambda>y. for_loop (width img) (\<lambda>x d.
       d[nat (pixel_index False (width img) (height img) (channels img) x y c)
           := data img ! nat (pixel_index True (width img) (height img) (channels img) x y c)])))
     (replicate (get_size img) 0)\<rparr>"
  by (simp add: SoA_to_AoS_def Let_def pixel_index_def)

lemma data_eqI:
  assumes pos: "0 < W" "0 < H" "0 < C"
    and len: "length d1 = nat (W * H * C)" "length d2 = nat (W * H * C)"
    and px: "\<And>c y x. 0 \<le> c \<Longrightarrow> c < C \<Longrightarrow> 0 \<le> y \<Longrightarrow> y < H \<Longrightarrow> 0 \<le> x \<Longrightarrow> x < W
         \<Longrightarrow> d1 ! nat (pixel_index soa W H C x y c) = d2 ! nat (pixel_index soa W H C x y c)"
  shows "d1 = d2"
proof (rule nth_equalityI)
  show "length d1 = length d2" using len by simp
next
  fix i assume "i < length d1"
  then have i: "0 \<le> int i" "int i < W * H * C"
    using len by simp_all
  obtain col row c where r: "0 \<le> col" "col < W" "0 \<le> row" "row < H" "0 \<le> c" "c < C"
    and e: "pixel_index soa W H C col row c = int i"
    using pixel_index_surj [OF i pos, of soa] by auto
  show "d1 ! i = d2 ! i"
    using px [of c row col] r e by simp
qed

lemma layout_round_trip:
  assumes pos: "0 < W" "0 < H" "0 < C" and len: "length src = nat (W * H * C)"
  shows "for_loop C (\<lambda>c. for_loop H (\<lambda>y. for_loop W (\<lambda>x d.
           d[nat (pixel_index (\<not> soa) W H C x y c) :=
               for_loop C (\<lambda>c. for_loop H (\<lambda>y. for_loop W (\<lambda>x d.
                 d[nat (pixel_index soa W H C x y c)
                     := src ! nat (pixel_index (\<not> soa) W H C x y c)])))
               (replicate (nat (W * H * C)) 0)
               ! nat (pixel_index soa W H C x y c)])))
         (replicate (nat (W * H * C)) 0)
         = src"
    (is "?back = src")
proof (rule data_eqI [OF pos _ len, of _ "\<not> soa"])
  show "length ?back = nat (W * H * C)"
    by (simp add: update_loop_length)
next
  fix c y x
  assume r: "0 \<le> c" "c < C" "0 \<le> y" "y < H" "0 \<le> x" "x < W"
  have "?back ! nat (pixel_index (\<not> soa) W H C x y c)
        = for_loop C (\<lambda>c. for_loop H (\<lambda>y. for_loop W (\<lambda>x d.
                 d[nat (pixel_index soa W H C x y c)
                     := src ! nat (pixel_index (\<not> soa) W H C x y c)])))
               (replicate (nat (W * H * C)) 0)
               ! nat (pixel_index soa W H C x y c)"
    using r by (intro update_loop_nth) simp_all
  also have "\<dots> = src ! nat (pixel_index (\<not> soa) W H C x y c)"
    using r by (intro update_loop_nth) simp_all
  finally show "?back ! nat (pixel_index (\<not> soa) W H C x y c)
        = src ! nat (pixel_index (\<not> soa) W H C x y c)" .
qed

text \<open>
  Claim C6. For every well-formed raster, converting its buffer from interleaved to
  planar and back (AoS to SoA, then SoA to AoS) gives back the same buffer, byte for
  byte, and leaves the other fields as they were; the same holds for planar to
  interleaved and back.
\<close>

theorem layout_conversion_round_trip:
  assumes "wf_image img"
  shows "SoA_to_AoS (AoS_to_SoA img) = img \<and> data (SoA_to_AoS (AoS_to_SoA img)) = data img
         \<and> AoS_to_SoA (SoA_to_AoS img) = img"
proof -
  have pos: "0 < width img" "0 < height img" "0 < channels img"
    and len: "length (data img) = nat (width img * height img * channels img)"
    using assms by (simp_all add: wf_image_def get_size_def)
  have 1: "SoA_to_AoS (AoS_to_SoA img) = img"
    unfolding AoS_to_SoA_alt SoA_to_AoS_alt
    using layout_round_trip [OF pos len, of True]
    by (simp add: get_size_def)
  have 2: "AoS_to_SoA (SoA_to_AoS img) = img"
    unfolding AoS_to_SoA_alt SoA_to_AoS_alt
    using layout_round_trip [OF pos len, of False]
    by (simp add: get_size_def)
  show ?thesis using 1 2 by simp
qed

theorem layout_conversion_round_trip_witness:
  "wf_image raster_rgb
   \<and> data (AoS_to_SoA raster_rgb) = [10, 20, 30, 40, 11, 21, 31, 41, 12, 22, 32, 42]
   \<and> SoA_to_AoS (AoS_to_SoA raster_rgb) = raster_rgb
   \<and> data (SoA_to_AoS (AoS_to_SoA raster_rgb)) = data raster_rgb
   \<and> AoS_to_SoA (SoA_to_AoS raster_rgb) = raster_rgb"
proof -
  have wf: "wf_image raster_rgb"
    by (simp add: wf_image_def raster_rgb_def Image_from_def Image_new_def get_size_def)
  have d: "data (AoS_to_SoA raster_rgb) = [10, 20, 30, 40, 11, 21, 31, 41, 12, 22, 32, 42]"
    by code_simp
  show ?thesis
    using wf d layout_conversion_round_trip [OF wf] by simp
qed

section \<open>Custom kernels\<close>

lemma upto_map_int: "[0..int n - 1] = map int [0..<n]"
proof (induction n)
  case 0
  then show ?case by simp
next
  case (Suc n)
  have "[0..int (Suc n) - 1] = [0..int n - 1] @ [int n]"
    using upto_rec2 [of 0 "int n"] by simp
  then show ?case using Suc by simp
qed

lemma for_loop_nat:
  "for_loop (int n) body s = fold (\<lambda>i. body (int i)) [0..<n] s"
  by (simp add: for_loop_def upto_map_int fold_map comp_def)

lemma fold_nth_foldl:
  "fold (\<lambda>i s. g s (d ! i)) [0..<length d] s = foldl g s d"
proof (induction d arbitrary: s rule: rev_induct)
  case Nil
  then show ?case by simp
next
  case (snoc x xs)
  have "fold (\<lambda>i s. g s ((xs @ [x]) ! i)) [0..<length xs] s = fold (\<lambda>i s. g s (xs ! i)) [0..<length xs] s"
    by (rule fold_cong) (simp_all add: nth_append)
  then show ?case using snoc by simp
qed

lemma fold_update_map:
  "k \<le> length d \<Longrightarrow>
   fold (\<lambda>i d. d[i := h (d ! i)]) [0..<k] d = map h (take k d) @ drop k d"
proof (induction k)
  case 0
  then show ?case by simp
next
  case (Suc k)
  then have k: "k < length d" by simp
  have "fold (\<lambda>i d. d[i := h (d ! i)]) [0..<Suc k] d
        = (map h (take k d) @ drop k d)[k := h ((map h (take k d) @ drop k d) ! k)]"
    using Suc by simp
  also have "\<dots> = map h (take k d) @ (drop k d)[0 := h (d ! k)]"
    using k by (simp add: list_update_append nth_append)
  also have "\<dots> = map h (take k d) @ h (d ! k) # drop (Suc k) d"
    using k by (simp add: Cons_nth_drop_Suc [symmetric])
  also have "\<dots> = map h (take (Suc k) d) @ drop (Suc k) d"
    using k by (simp add: take_Suc_conv_app_nth)
  finally show ?case .
qed

lemma custom_kernel_array:
  assumes "length d = nat (n * n)"
  shows "fst (custom_kernel F n d True) = map (\<lambda>w. f_div F w (foldl (f_add F) 0 d)) d"
    and "fst (custom_kernel F n d False) = d"
    and "snd (custom_kernel F n d b) = Kernel_from n n (fst (custom_kernel F n d b))"
proof -
  have nn: "n * n = int (length d)"
    using assms by simp
  have sum: "for_loop (n * n) (\<lambda>i sum. f_add F sum (d ! nat i)) 0 = foldl (f_add F) 0 d"
    unfolding nn for_loop_nat by (simp add: fold_nth_foldl)
  have "for_loop (n * n) (\<lambda>i d. d[nat i := f_div F (d ! nat i) s]) d = map (\<lambda>w. f_div F w s) d" for s
    unfolding nn for_loop_nat using fold_update_map [of "length d" d "\<lambda>w. f_div F w s"] by simp
  then show "fst (custom_kernel F n d True) = map (\<lambda>w. f_div F w (foldl (f_add F) 0 d)) d"
    by (simp add: custom_kernel_def Let_def sum)
  show "fst (custom_kernel F n d False) = d"
    by (simp add: custom_kernel_def)
  show "snd (custom_kernel F n d b) = Kernel_from n n (fst (custom_kernel F n d b))"
    by (simp add: custom_kernel_def Let_def)
qed

lemma Kernel_from_data:
  assumes "Kernel_from w h d = Inr k" "length d = nat (w * h)"
  shows "k_data k = d \<and> k_width k = w \<and> k_height k = h"
  using assms Kernel_new_Inr_dims [of w h]
  by (auto simp: Kernel_from_def Kernel_get_size_def split: sum.splits)

text \<open>
  Claim C9. A call of \<open>custom_kernel\<close> on an array of \<open>size * size\<close> weights leaves, when
  normalisation is requested, every entry of the caller's array divided by the sum of
  the entries the array held before the call (the sum accumulated from 0 in index order),
  whether or not the construction of the kernel then succeeds, and a returned kernel holds
  a copy of the array as the call left it; without normalisation the caller's array is
  unchanged.
\<close>

theorem custom_kernel_mutates_argument:
  assumes "length d = nat (n * n)"
  shows "fst (custom_kernel F n d True) = map (\<lambda>w. f_div F w (foldl (f_add F) 0 d)) d
         \<and> (\<forall>k. snd (custom_kernel F n d True) = Inr k \<longrightarrow>
               k_data k = map (\<lambda>w. f_div F w (foldl (f_add F) 0 d)) d)
         \<and> fst (custom_kernel F n d False) = d
         \<and> (\<forall>k. snd (custom_kernel F n d False) = Inr k \<longrightarrow> k_data k = d)"
proof -
  note a = custom_kernel_array [OF assms, of F]
  have "k_data k = map (\<lambda>w. f_div F w (foldl (f_add F) 0 d)) d"
    if "snd (custom_kernel F n d True) = Inr k" for k
    using that a(1) a(3) [of True] assms
      Kernel_from_data [of n n "map (\<lambda>w. f_div F w (foldl (f_add F) 0 d)) d" k]
    by simp
  moreover have "k_data k = d" if "snd (custom_kernel F n d False) = Inr k" for k
    using that a(2) a(3) [of False] assms Kernel_from_data [of n n d k] by simp
  ultimately show ?thesis using a(1,2) by blast
qed

theorem custom_kernel_mutates_argument_witness:
  "length [1, 2, 1, 2, 3, 2, 1, 2, 4 :: float] = nat (3 * 3)
   \<and> fst (custom_kernel exact_ops 3 [1, 2, 1, 2, 3, 2, 1, 2, 4] True)
       = [1 / 18, 2 / 18, 1 / 18, 2 / 18, 3 / 18, 2 / 18, 1 / 18, 2 / 18, 4 / 18]
   \<and> snd (custom_kernel exact_ops 3 [1, 2, 1, 2, 3, 2, 1, 2, 4] True)
       = Inr \<lparr>k_width = 3, k_height = 3,
              k_data = [1 / 18, 2 / 18, 1 / 18, 2 / 18, 3 / 18, 2 / 18, 1 / 18, 2 / 18, 4 / 18]\<rparr>
   \<and> fst (custom_kernel exact_ops 3 [1, 2, 1, 2, 3, 2, 1, 2, 4] False)
       = [1, 2, 1, 2, 3, 2, 1, 2, 4]
   \<and> snd (custom_kernel exact_ops 3 [1, 2, 1, 2, 3, 2, 1, 2, 4] False)
       = Inr \<lparr>k_width = 3, k_height = 3, k_data = [1, 2, 1, 2, 3, 2, 1, 2, 4]\<rparr>
   \<and> fst (custom_kernel exact_ops 2 [1, 1, 1, 1] True) = [1 / 4, 1 / 4, 1 / 4, 1 / 4]
   \<and> snd (custom_kernel exact_ops 2 [1, 1, 1, 1] True) = Inl Kernel_dimensions_not_odd"
proof -
  have l: "length [1, 2, 1, 2, 3, 2, 1, 2, 4 :: float] = nat (3 * 3)"
    "length [1, 1, 1, 1 :: float] = nat (2 * 2)"
    by simp_all
  have k: "Kernel_from 3 3 d = Inr \<lparr>k_width = 3, k_height = 3, k_data = take 9 d\<rparr>" for d
    by (simp add: Kernel_from_def Kernel_new_def Kernel_get_size_def signed_modulo_int_def)
  have k2: "Kernel_from 2 2 d = Inl Kernel_dimensions_not_odd" for d
    by (simp add: Kernel_from_def Kernel_new_def signed_modulo_int_def)
  have s: "snd (custom_kernel F n d b) = Kernel_from n n (fst (custom_kernel F n d b))" for F n d b
    by (simp add: custom_kernel_def Let_def)
  show ?thesis
    using custom_kernel_mutates_argument [OF l(1), of exact_ops]
      custom_kernel_mutates_argument [OF l(2), of exact_ops]
    by (simp add: s k k2 exact_ops_def)
qed

section \<open>Sequential convolution\<close>

lemma half_floor_div: "half_floor k = k div 2"
proof -
  have "\<lfloor>(of_int k :: real) / of_int 2\<rfloor> = k div 2"
    by (rule floor_divide_of_int_eq)
  then show ?thesis by (simp add: half_floor_def)
qed

lemma sdiv_two_nonneg: "0 \<le> k \<Longrightarrow> k sdiv 2 = k div (2 :: int)"
  by (simp add: signed_divide_int_def sgn_if)

lemma odd_half: "odd k \<Longrightarrow> k = 2 * (k div 2) + (1 :: int)"
  by presburger

lemma Kernel_at_Inr:
  assumes "0 \<le> kx" "kx < k_width kern" "0 \<le> ky" "ky < k_height kern"
  shows "Kernel_at kern kx ky = Inr (weight_of kern kx ky)"
  using assms by (simp add: Kernel_at_def weight_of_def)

lemma in_window [simp]:
  "(ky, kx) \<in> set (window kern) \<longleftrightarrow> (0 \<le> ky \<and> ky < k_height kern) \<and> (0 \<le> kx \<and> kx < k_width kern)"
  by (simp add: window_def)

text \<open>When every read of the window is in range the two inner loops return the
  weighted sum.\<close>

lemma convolve_pixel_weighted_sum:
  assumes k: "valid_kernel_dims (k_width kern) (k_height kern)"
    and pw: "pw = k_width kern div 2" and ph: "ph = k_height kern div 2"
    and dims: "width padded = W + pw * 2" "height padded = H + ph * 2" "channels padded = C"
    and r: "0 \<le> c" "c < C" "0 \<le> y" "y < H" "0 \<le> x" "x < W"
  shows "convolve_pixel F padded kern pw ph c y x = Inr (weighted_sum F padded kern c y x)"
proof -
  define kw where "kw = k_width kern"
  define kh where "kh = k_height kern"
  have kk: "kh = kw" "0 < kw" "odd kw"
    using k by (simp_all add: valid_kernel_dims_def kw_def kh_def)
  have kw2: "kw = 2 * pw + 1"
    using odd_half [OF kk(3)] pw by (simp add: kw_def)
  have kh2: "kh = 2 * ph + 1"
    using odd_half [of kh] kk ph by (simp add: kh_def)
  have pwh: "ph = pw" using pw ph kk by (simp add: kw_def kh_def)
  define body where "body = (\<lambda>ky kx output_value.
      (let col = x + kx - half_floor kw + pw; row = y + ky - half_floor kw + ph
       in ebind (Image_at padded col row c) (\<lambda>p.
          ebind (Kernel_at kern kx ky) (\<lambda>k.
            Inr (f_add F output_value (f_mul F (float_of_u8 p) k))))))"
  define g where "g = (\<lambda>(ky, kx) acc.
            f_add F acc (f_mul F (float_of_u8 (pixel_of padded (x + kx) (y + ky) c))
                                  (weight_of kern kx ky)))"
  have step: "(\<lambda>(ky, kx). body ky kx) q acc = Inr (g q acc)" if "q \<in> set (window kern)" for q acc
  proof -
    obtain ky kx where q: "q = (ky, kx)" by (cases q) auto
    have w: "0 \<le> ky" "ky < kh" "0 \<le> kx" "kx < kw"
      using that q by (simp_all add: kw_def kh_def)
    have col: "x + kx - half_floor kw + pw = x + kx" and row: "y + ky - half_floor kw + ph = y + ky"
      using pw pwh by (simp_all add: half_floor_div kw_def)
    have in_range: "\<not> coords_invalid padded (x + kx) (y + ky) c"
      using w r dims kw2 kh2 by (simp add: coords_invalid_def)
    have "Image_at padded (x + kx) (y + ky) c = Inr (pixel_of padded (x + kx) (y + ky) c)"
      using in_range by (simp add: Image_at_def pixel_of_def)
    moreover have "Kernel_at kern kx ky = Inr (weight_of kern kx ky)"
      using w by (intro Kernel_at_Inr) (simp_all add: kw_def kh_def)
    ultimately show ?thesis
      by (simp add: q body_def g_def col row)
  qed
  have "convolve_pixel F padded kern pw ph c y x
        = for_each (window kern) (\<lambda>(ky, kx). body ky kx) 0"
    unfolding convolve_pixel_def Let_def for_loop_e_eq window_def body_def kw_def
    by (rule for_each_product)
  also have "\<dots> = Inr (fold g (window kern) 0)"
    by (rule for_each_total) (rule step)
  finally show ?thesis
    by (simp add: weighted_sum_def g_def)
qed

lemma padding_returns:
  assumes wf: "wf_image img" and pos: "0 \<le> pw" "0 \<le> ph"
    and m: "pt = MIRROR \<longrightarrow> pw < width img \<and> ph < height img"
  shows "\<exists>p. padding img pw ph pt = Inr p"
proof -
  have "padding_value img pw ph pt c y x
         = Inr (case padding_value img pw ph pt c y x of Inr v \<Rightarrow> v | Inl e \<Rightarrow> 0)"
    if r: "0 \<le> c" "c < channels img" "0 \<le> y" "y < height img + ph * 2" "0 \<le> x" "x < width img + pw * 2"
    for c y x
  proof (cases pt)
    case ZERO
    then show ?thesis using r by (simp add: padding_value_def Let_def Image_at_Inr)
  next
    case REPLICATE
    have "0 \<le> clamp 0 (x - pw) (width img - 1) \<and> clamp 0 (x - pw) (width img - 1) < width img"
      "0 \<le> clamp 0 (y - ph) (height img - 1) \<and> clamp 0 (y - ph) (height img - 1) < height img"
      using wf by (auto simp: clamp_def wf_image_def)
    then show ?thesis using r REPLICATE by (simp add: padding_value_def Let_def Image_at_Inr)
  next
    case MIRROR
    then show ?thesis using mirror_padding_ok [OF wf _ _ _ _ r] pos m by simp
  qed
  then show ?thesis
    using padding_pixels [OF pos, of img pt
        "\<lambda>c y x. case padding_value img pw ph pt c y x of Inr v \<Rightarrow> v | Inl e \<Rightarrow> 0"]
    by blast
qed

text \<open>The sequential convolution of a raster that can be padded returns a raster of the
  dimensions of the input whose pixels are the stored weighted sums.\<close>

lemma convolve_pixels:
  assumes k: "valid_kernel_dims (k_width kern) (k_height kern)"
    and p: "padding img (k_width kern sdiv 2) (k_height kern sdiv 2) pt = Inr padded"
  shows "\<exists>out. convolve F img kern pt = Inr out
           \<and> width out = width img \<and> height out = height img \<and> channels out = channels img
           \<and> is_SoA out = is_SoA img
           \<and> length (data out) = nat (width img * height img * channels img)
           \<and> (\<forall>c y x. 0 \<le> c \<and> c < channels img \<and> 0 \<le> y \<and> y < height img
                  \<and> 0 \<le> x \<and> x < width img
                \<longrightarrow> Image_at out x y c = Inr (store_u8 (weighted_sum F padded kern c y x)))"
proof -
  define pw where "pw = k_width kern sdiv 2"
  define ph where "ph = k_height kern sdiv 2"
  have pw: "pw = k_width kern div 2" and ph: "ph = k_height kern div 2"
    using k by (simp_all add: pw_def ph_def sdiv_two_nonneg valid_kernel_dims_def)
  have pd: "width padded = width img + pw * 2" "height padded = height img + ph * 2"
    "channels padded = channels img"
    using padding_Inr_pixels(1) [OF p] by (simp_all add: pw_def ph_def)
  have "\<exists>out. for_loop_e (channels img) (\<lambda>c. for_loop_e (height img) (\<lambda>y. for_loop_e (width img)
          (\<lambda>x output_image.
              ebind (convolve_pixel F padded kern pw ph c y x)
                (\<lambda>output_value. Image_set output_image x y c (store_u8 output_value)))))
          (Image_new (width img) (height img) (channels img) (is_SoA img)) = Inr out
           \<and> width out = width img \<and> height out = height img \<and> channels out = channels img
           \<and> is_SoA out = is_SoA (Image_new (width img) (height img) (channels img) (is_SoA img))
           \<and> length (data out) = nat (width img * height img * channels img)
           \<and> (\<forall>c y x. 0 \<le> c \<and> c < channels img \<and> 0 \<le> y \<and> y < height img
                  \<and> 0 \<le> x \<and> x < width img
                \<longrightarrow> Image_at out x y c = Inr (store_u8 (weighted_sum F padded kern c y x)))"
  proof (rule for_loop_e_Image_set)
    show "ebind (convolve_pixel F padded kern pw ph c y x)
                (\<lambda>output_value. Image_set out x y c (store_u8 output_value))
          = Image_set out x y c (store_u8 (weighted_sum F padded kern c y x))"
      if "0 \<le> c" "c < channels img" "0 \<le> y" "y < height img" "0 \<le> x" "x < width img"
      for c y x out
      using convolve_pixel_weighted_sum [OF k pw ph pd that, of F] by simp
  qed simp_all
  then show ?thesis
    using p by (simp add: convolve_def Let_def pw_def ph_def)
qed

lemma store_u8_float_of_u8: "store_u8 (float_of_u8 p) = p"
proof -
  define n where "n = unat p"
  have "n < 256" using unsigned_less [of p] by (simp add: n_def)
  then have "(of_nat n :: real) \<le> of_nat 255"
    by (simp only: of_nat_le_iff)
  then have "clamp 0 (of_nat n :: real) 255 = of_nat n"
    by (simp add: clamp_def min_def max_def)
  then have "store_u8 (of_nat n) = word_of_nat n"
    by (simp add: store_u8_def)
  moreover have "float_of_u8 p = of_nat n"
    unfolding float_of_u8_def n_def ..
  moreover have "(word_of_nat n :: u8) = p"
    by (simp add: n_def)
  ultimately show ?thesis by simp
qed

lemma store_u8_saturates: "store_u8 300 = 255" "store_u8 (- 40) = 0"
  by (simp_all add: store_u8_def clamp_def)

lemma Image_at_pixel_of:
  assumes "0 \<le> c" "c < channels img" "0 \<le> y" "y < height img" "0 \<le> x" "x < width img"
  shows "Image_at img x y c = Inr (pixel_of img x y c)"
  using assms by (simp add: Image_at_def coords_invalid_def pixel_of_def)

text \<open>
  Claim C7. For every well-formed raster of at most \<open>INT_MAX\<close> bytes whose width and
  height are at most \<open>2 ^ 24\<close> (so that every pixel coordinate is a float) and every
  padding policy, the convolution with the 1 by 1 kernel whose weight is 1.0 returns the
  input raster, provided multiplying a float by 1.0 and adding a float to 0.0 are exact
  (as they are for IEEE floats).
\<close>

theorem convolve_identity_kernel:
  assumes wf: "wf_image img"
    and size: "width img * height img * channels img \<le> INT_MAX"
    and exact: "width img \<le> 2 ^ 24" "height img \<le> 2 ^ 24"
    and mul: "\<forall>v. f_mul F v 1 = v" and add: "\<forall>v. f_add F 0 v = v"
  shows "convolve F img \<lparr>k_width = 1, k_height = 1, k_data = [1]\<rparr> pt = Inr img
         \<and> Image_eq img img"
proof -
  define kern where "kern = \<lparr>k_width = 1, k_height = 1, k_data = [1 :: float]\<rparr>"
  have v: "valid_kernel_dims (k_width kern) (k_height kern)"
    by (simp add: kern_def valid_kernel_dims_def)
  have s: "k_width kern sdiv 2 = 0" "k_height kern sdiv 2 = 0"
    by (simp_all add: kern_def signed_divide_int_def)
  have pos: "0 < width img" "0 < height img" "0 < channels img"
    using wf by (simp_all add: wf_image_def)
  obtain padded where p: "padding img 0 0 pt = Inr padded"
    using padding_returns [OF wf, of 0 0 pt] pos by auto
  have pd: "width padded = width img" "height padded = height img" "channels padded = channels img"
    using padding_Inr_pixels(1) [OF p] by simp_all
  obtain out where c: "convolve F img kern pt = Inr out"
    and od: "width out = width img" "height out = height img" "channels out = channels img"
      "is_SoA out = is_SoA img" "length (data out) = nat (width img * height img * channels img)"
    and px: "\<And>c y x. 0 \<le> c \<and> c < channels img \<and> 0 \<le> y \<and> y < height img \<and> 0 \<le> x \<and> x < width img
           \<Longrightarrow> Image_at out x y c = Inr (store_u8 (weighted_sum F padded kern c y x))"
    using convolve_pixels [OF v, of img pt padded F] p by (auto simp: s)
  have w: "window kern = [(0, 0)]"
    by (simp add: window_def kern_def)
  have "data img = data out"
  proof (rule Image_eqI)
    fix c y x
    assume r: "0 \<le> c" "c < channels img" "0 \<le> y" "y < height img" "0 \<le> x" "x < width img"
    have "Image_at padded x y c = padding_value img 0 0 pt c y x"
      using padding_Inr_pixels(2) [OF p, of c y x] r by simp
    also have "\<dots> = Inr (pixel_of img x y c)"
      using r by (simp add: padding_value_def Image_at_pixel_of)
    finally have "pixel_of padded x y c = pixel_of img x y c"
      using r pd by (simp add: Image_at_pixel_of)
    moreover have "weight_of kern 0 0 = 1"
      by (simp add: weight_of_def kern_def)
    ultimately have "weighted_sum F padded kern c y x = float_of_u8 (pixel_of img x y c)"
      unfolding weighted_sum_def w using mul add by simp
    then have "Image_at out x y c = Inr (pixel_of img x y c)"
      using px [of c y x] r by (simp add: store_u8_float_of_u8)
    then show "Image_at img x y c = Image_at out x y c"
      using r by (simp add: Image_at_pixel_of)
  qed (use od wf in \<open>simp_all add: get_size_def\<close>)
  then have "out = img"
    using od by (intro Image.equality) simp_all
  then show ?thesis
    using c wf by (simp add: kern_def Image_eq_def)
qed

theorem convolve_identity_kernel_witness:
  "wf_image raster4
   \<and> width raster4 * height raster4 * channels raster4 \<le> INT_MAX
   \<and> width raster4 \<le> 2 ^ 24 \<and> height raster4 \<le> 2 ^ 24
   \<and> convolve exact_ops raster4 \<lparr>k_width = 1, k_height = 1, k_data = [1]\<rparr> MIRROR = Inr raster4
   \<and> convolve exact_ops raster4 \<lparr>k_width = 1, k_height = 1, k_data = [1]\<rparr> ZERO = Inr raster4
   \<and> Image_eq raster4 raster4"
proof -
  have dims: "width raster4 = 4" "height raster4 = 4" "channels raster4 = 1"
    by (simp_all add: raster4_def Image_from_def Image_new_def)
  have r: "width raster4 * height raster4 * channels raster4 \<le> INT_MAX"
    "width raster4 \<le> 2 ^ 24" "height raster4 \<le> 2 ^ 24"
    by (simp_all add: dims INT_MAX_def)
  show ?thesis
    using wf_raster4 r convolve_identity_kernel [OF wf_raster4 r, of exact_ops]
    by (simp add: exact_ops_def)
qed

section \<open>Kernel launches: global and constant memory\<close>

lemma writes_skip: "writes V {} (\<lambda>d. d)"
  by (simp add: writes_def)

lemma writes_update: "writes V {j} (\<lambda>d. d[j := V j])"
  by (simp add: writes_def nth_list_update)

lemma writes_compose:
  assumes "writes V D1 g1" "writes V D2 g2"
  shows "writes V (D1 \<union> D2) (\<lambda>d. g2 (g1 d))"
  using assms unfolding writes_def by auto

lemma writes_fold:
  assumes "\<And>x. x \<in> set xs \<Longrightarrow> writes V (D x) (g x)"
  shows "writes V (\<Union>x \<in> set xs. D x) (fold g xs)"
  using assms
proof (induction xs)
  case Nil
  then show ?case by (simp add: writes_def)
next
  case (Cons x xs)
  have 1: "writes V (D x) (g x)" using Cons.prems by simp
  have 2: "writes V (\<Union>x \<in> set xs. D x) (fold g xs)"
    using Cons by simp
  have "writes V (D x \<union> (\<Union>x \<in> set xs. D x)) (\<lambda>d. fold g xs (g x d))"
    using writes_compose [OF 1 2] .
  then show ?case by (simp add: comp_def)
qed

lemma writes_for_loop:
  assumes "\<And>i. 0 \<le> i \<Longrightarrow> i < n \<Longrightarrow> writes V (D i) (body i)"
  shows "writes V (\<Union>i \<in> {0..<n}. D i) (for_loop n body)"
proof -
  have "writes V (\<Union>i \<in> set [0..n - 1]. D i) (fold body [0..n - 1])"
    using assms by (intro writes_fold) auto
  moreover have "set [0..n - 1] = {0..<n}" by auto
  ultimately show ?thesis by (simp add: for_loop_eq)
qed

lemma writes_eq:
  assumes "writes V D g" "D = D'" "g = g'"
  shows "writes V D' g'"
  using assms by simp

lemma writes_nth:
  assumes "writes V D g" "i \<in> D" "i < length d"
  shows "g d ! i = V i"
  using assms by (simp add: writes_def)

lemma writes_length:
  assumes "writes V D g"
  shows "length (g d) = length d"
  using assms by (simp add: writes_def)

lemma index_function:
  "\<exists>V. \<forall>c y x. 0 \<le> c \<and> c < C \<and> 0 \<le> y \<and> y < H \<and> 0 \<le> x \<and> x < W
         \<longrightarrow> V (nat (pixel_index soa W H C x y c)) = val c y x"
proof -
  define P where "P = (\<lambda>i (p :: int \<times> int \<times> int). case p of (c, y, x) \<Rightarrow>
      0 \<le> c \<and> c < C \<and> 0 \<le> y \<and> y < H \<and> 0 \<le> x \<and> x < W \<and> nat (pixel_index soa W H C x y c) = i)"
  define V where "V = (\<lambda>i. case (SOME p. P i p) of (c, y, x) \<Rightarrow> val c y x)"
  have "V (nat (pixel_index soa W H C x y c)) = val c y x"
    if r: "0 \<le> c \<and> c < C \<and> 0 \<le> y \<and> y < H \<and> 0 \<le> x \<and> x < W" for c y x
  proof -
    define i where "i = nat (pixel_index soa W H C x y c)"
    have "P i (c, y, x)" using r by (simp add: P_def i_def)
    then have s: "P i (SOME p. P i p)" by (rule someI)
    obtain c' y' x' where p: "(SOME p. P i p) = (c', y', x')"
      by (cases "SOME p. P i p") auto
    have r': "0 \<le> c' \<and> c' < C \<and> 0 \<le> y' \<and> y' < H \<and> 0 \<le> x' \<and> x' < W"
      and e: "nat (pixel_index soa W H C x' y' c') = nat (pixel_index soa W H C x y c)"
      using s p by (simp_all add: P_def i_def)
    have "0 \<le> pixel_index soa W H C x y c" "0 \<le> pixel_index soa W H C x' y' c'"
      using r r' pixel_index_bound [of x W y H c C soa] pixel_index_bound [of x' W y' H c' C soa]
      by simp_all
    with e have "pixel_index soa W H C x' y' c' = pixel_index soa W H C x y c" by simp
    then have "c' = c \<and> y' = y \<and> x' = x"
      using r r' pixel_index_inj [of x' W y' H c' C x y c soa] by simp
    then show ?thesis using p by (simp add: V_def i_def)
  qed
  then show ?thesis by blast
qed

lemma all_threads_eq:
  "all_threads (bdx, bdy) (bx, by) k
   = for_loop bdy (\<lambda>ty. for_loop bdx (\<lambda>tx.
       k \<lparr>blockIdx_x = bx, blockIdx_y = by, blockDim_x = bdx, blockDim_y = bdy,
          threadIdx_x = tx, threadIdx_y = ty\<rparr>))"
  by (rule ext) (simp add: all_threads_def)

lemma launch_eq:
  "launch (gdx, gdy) block = for_loop gdy (\<lambda>by. for_loop gdx (\<lambda>bx. block (bx, by)))"
  by (rule ext) (simp add: launch_def)

lemma launch_writes:
  assumes "\<And>bx by tx ty. 0 \<le> bx \<Longrightarrow> bx < gdx \<Longrightarrow> 0 \<le> by \<Longrightarrow> by < gdy
              \<Longrightarrow> 0 \<le> tx \<Longrightarrow> tx < bdx \<Longrightarrow> 0 \<le> ty \<Longrightarrow> ty < bdy
              \<Longrightarrow> writes V (D bx by tx ty)
                    (k \<lparr>blockIdx_x = bx, blockIdx_y = by, blockDim_x = bdx, blockDim_y = bdy,
                        threadIdx_x = tx, threadIdx_y = ty\<rparr>)"
  shows "writes V (\<Union>by \<in> {0..<gdy}. \<Union>bx \<in> {0..<gdx}. \<Union>ty \<in> {0..<bdy}. \<Union>tx \<in> {0..<bdx}. D bx by tx ty)
           (launch (gdx, gdy) (\<lambda>blockIdx. all_threads (bdx, bdy) blockIdx k))"
proof -
  have "writes V (\<Union>by \<in> {0..<gdy}. \<Union>bx \<in> {0..<gdx}. \<Union>ty \<in> {0..<bdy}. \<Union>tx \<in> {0..<bdx}. D bx by tx ty)
          (for_loop gdy (\<lambda>by. for_loop gdx (\<lambda>bx. for_loop bdy (\<lambda>ty. for_loop bdx (\<lambda>tx.
              k \<lparr>blockIdx_x = bx, blockIdx_y = by, blockDim_x = bdx, blockDim_y = bdy,
                 threadIdx_x = tx, threadIdx_y = ty\<rparr>)))))"
    by (intro writes_for_loop assms)
  moreover have "launch (gdx, gdy) (\<lambda>blockIdx. all_threads (bdx, bdy) blockIdx k)
        = for_loop gdy (\<lambda>by. for_loop gdx (\<lambda>bx. for_loop bdy (\<lambda>ty. for_loop bdx (\<lambda>tx.
              k \<lparr>blockIdx_x = bx, blockIdx_y = by, blockDim_x = bdx, blockDim_y = bdy,
                 threadIdx_x = tx, threadIdx_y = ty\<rparr>))))"
    by (simp add: launch_eq all_threads_eq)
  ultimately show ?thesis by simp
qed

lemma grid_covers:
  fixes T x W :: int
  assumes "0 < T" "0 \<le> x" "x < W"
  shows "0 \<le> x div T \<and> x div T < (W + T - 1) sdiv T \<and> 0 \<le> x mod T \<and> x mod T < T
         \<and> x div T * T + x mod T = x"
proof -
  have "0 < W + T - 1" using assms by linarith
  then have "(W + T - 1) sdiv T = (W + T - 1) div T"
    using assms(1) by (simp add: signed_divide_int_def sgn_if)
  moreover have "x div T < (W + T - 1) div T"
  proof -
    have "x div T \<le> (W - 1) div T"
      using assms by (intro zdiv_mono1) auto
    moreover have "(W + T - 1) div T = (W - 1) div T + 1"
      using assms div_add_self2 [of T "W - 1"] by (simp add: algebra_simps)
    ultimately show ?thesis by simp
  qed
  moreover have "0 \<le> x div T"
    using assms by (simp add: pos_imp_zdiv_nonneg_iff)
  ultimately show ?thesis using assms by simp
qed

lemma grid_pixels_covered:
  assumes T: "0 < T" and r: "0 \<le> c" "c < C" "0 \<le> y" "y < H" "0 \<le> x" "x < W"
  shows "nat (pixel_index soa W H C x y c)
         \<in> (\<Union>by \<in> {0..<(H + T - 1) sdiv T}. \<Union>bx \<in> {0..<(W + T - 1) sdiv T}.
              \<Union>ty \<in> {0..<T}. \<Union>tx \<in> {0..<T}.
                thread_pixels soa W H C (bx * T + tx) (by * T + ty))"
proof -
  note gx = grid_covers [OF T r(5,6)]
  note gy = grid_covers [OF T r(3,4)]
  have "nat (pixel_index soa W H C x y c)
        \<in> thread_pixels soa W H C (x div T * T + x mod T) (y div T * T + y mod T)"
    using r gx gy by (auto simp: thread_pixels_def)
  moreover have "y div T \<in> {0..<(H + T - 1) sdiv T}" "x div T \<in> {0..<(W + T - 1) sdiv T}"
    "y mod T \<in> {0..<T}" "x mod T \<in> {0..<T}"
    using gx gy by simp_all
  ultimately show ?thesis by blast
qed

lemma global_thread_writes:
  assumes V: "\<And>c y x. 0 \<le> c \<Longrightarrow> c < arg_channels a \<Longrightarrow> 0 \<le> y \<Longrightarrow> y < arg_height a
               \<Longrightarrow> 0 \<le> x \<Longrightarrow> x < arg_width a
               \<Longrightarrow> V (nat (pixel_index (arg_is_SoA a) (arg_width a) (arg_height a) (arg_channels a) x y c))
                   = store_u8 (device_sum F a d_kernel c y x)"
    and t: "0 \<le> blockIdx_x t * blockDim_x t + threadIdx_x t"
           "0 \<le> blockIdx_y t * blockDim_y t + threadIdx_y t"
  shows "writes V (thread_pixels (arg_is_SoA a) (arg_width a) (arg_height a) (arg_channels a)
                     (blockIdx_x t * blockDim_x t + threadIdx_x t)
                     (blockIdx_y t * blockDim_y t + threadIdx_y t))
           (convolution_kernel_global F a d_kernel t)"
proof -
  define x where "x = blockIdx_x t * blockDim_x t + threadIdx_x t"
  define y where "y = blockIdx_y t * blockDim_y t + threadIdx_y t"
  define ix where "ix = (\<lambda>c. nat (pixel_index (arg_is_SoA a) (arg_width a) (arg_height a) (arg_channels a) x y c))"
  show ?thesis
  proof (cases "x < arg_width a \<and> y < arg_height a")
    case True
    have k: "convolution_kernel_global F a d_kernel t
          = for_loop (arg_channels a) (\<lambda>c d. d[ix c := store_u8 (device_sum F a d_kernel c y x)])"
      using True
      by (intro ext)
        (simp add: convolution_kernel_global_def Let_def x_def y_def ix_def set_pixel_value_def
          device_sum_def)
    have "writes V (\<Union>c \<in> {0..<arg_channels a}. {ix c})
            (for_loop (arg_channels a) (\<lambda>c d. d[ix c := store_u8 (device_sum F a d_kernel c y x)]))"
    proof (rule writes_for_loop)
      fix c assume c: "0 \<le> c" "c < arg_channels a"
      have "V (ix c) = store_u8 (device_sum F a d_kernel c y x)"
        using V [of c y x] c True t by (simp add: ix_def x_def y_def)
      then show "writes V {ix c} (\<lambda>d. d[ix c := store_u8 (device_sum F a d_kernel c y x)])"
        using writes_update [of V "ix c"] by simp
    qed
    then show ?thesis
      using True by (simp add: k thread_pixels_def ix_def x_def y_def)
  next
    case False
    have "convolution_kernel_global F a d_kernel t d = d" for d
      unfolding convolution_kernel_global_def Let_def
      using False by (simp only: x_def y_def if_False)
    then have "convolution_kernel_global F a d_kernel t = (\<lambda>d. d)"
      by (intro ext)
    moreover have "thread_pixels (arg_is_SoA a) (arg_width a) (arg_height a) (arg_channels a) x y = {}"
      using False by (auto simp: thread_pixels_def)
    ultimately show ?thesis
      using writes_skip [of V] by (simp add: x_def y_def)
  qed
qed

lemma convolution_kernel_constant_global:
  "convolution_kernel_constant F a c_kernel t d = convolution_kernel_global F a c_kernel t d"
  by (simp add: convolution_kernel_constant_def convolution_kernel_global_def)

text \<open>One launch, and so any positive number of launches, of the global-memory kernel
  stores \<open>store_u8 (device_sum \<dots>)\<close> in every element of the output.\<close>

lemma global_launches:
  assumes T: "0 < T" and n: "0 < n"
    and r: "0 \<le> c" "c < arg_channels a" "0 \<le> y" "y < arg_height a" "0 \<le> x" "x < arg_width a"
    and len: "length d = nat (arg_width a * arg_height a * arg_channels a)"
  shows "for_loop n (\<lambda>i. launch (grid_of (arg_width a) (arg_height a) (T, T))
            (\<lambda>blockIdx. all_threads (T, T) blockIdx (convolution_kernel_global F a d_kernel))) d
           ! nat (pixel_index (arg_is_SoA a) (arg_width a) (arg_height a) (arg_channels a) x y c)
         = store_u8 (device_sum F a d_kernel c y x)"
    and "length (for_loop n (\<lambda>i. launch (grid_of (arg_width a) (arg_height a) (T, T))
            (\<lambda>blockIdx. all_threads (T, T) blockIdx (convolution_kernel_global F a d_kernel))) d)
         = length d"
proof -
  define W where "W = arg_width a"
  define H where "H = arg_height a"
  define C where "C = arg_channels a"
  define soa where "soa = arg_is_SoA a"
  obtain V where V: "\<And>c y x. 0 \<le> c \<and> c < C \<and> 0 \<le> y \<and> y < H \<and> 0 \<le> x \<and> x < W
         \<Longrightarrow> V (nat (pixel_index soa W H C x y c)) = store_u8 (device_sum F a d_kernel c y x)"
    using index_function [of C H W soa "\<lambda>c y x. store_u8 (device_sum F a d_kernel c y x)"] by blast
  define D where "D = (\<Union>by \<in> {0..<(H + T - 1) sdiv T}. \<Union>bx \<in> {0..<(W + T - 1) sdiv T}.
              \<Union>ty \<in> {0..<T}. \<Union>tx \<in> {0..<T}.
                thread_pixels soa W H C (bx * T + tx) (by * T + ty))"
  have one: "writes V D (launch (grid_of W H (T, T))
            (\<lambda>blockIdx. all_threads (T, T) blockIdx (convolution_kernel_global F a d_kernel)))"
    unfolding D_def grid_of_def fst_conv snd_conv
  proof (rule launch_writes)
    fix bx "by" tx ty :: int
    assume b: "0 \<le> bx" "0 \<le> by" "0 \<le> tx" "0 \<le> ty"
    have "writes V (thread_pixels (arg_is_SoA a) (arg_width a) (arg_height a) (arg_channels a)
                     (bx * T + tx) (by * T + ty))
           (convolution_kernel_global F a d_kernel
              \<lparr>blockIdx_x = bx, blockIdx_y = by, blockDim_x = T, blockDim_y = T,
               threadIdx_x = tx, threadIdx_y = ty\<rparr>)"
      using global_thread_writes [of a V F d_kernel
          "\<lparr>blockIdx_x = bx, blockIdx_y = by, blockDim_x = T, blockDim_y = T,
               threadIdx_x = tx, threadIdx_y = ty\<rparr>"] V b T
      by (simp add: W_def H_def C_def soa_def)
    then show "writes V (thread_pixels soa W H C (bx * T + tx) (by * T + ty))
           (convolution_kernel_global F a d_kernel
              \<lparr>blockIdx_x = bx, blockIdx_y = by, blockDim_x = T, blockDim_y = T,
               threadIdx_x = tx, threadIdx_y = ty\<rparr>)"
      by (simp add: W_def H_def C_def soa_def)
  qed
  have "writes V (\<Union>i \<in> {0..<n}. D) (for_loop n (\<lambda>i. launch (grid_of W H (T, T))
            (\<lambda>blockIdx. all_threads (T, T) blockIdx (convolution_kernel_global F a d_kernel))))"
    by (intro writes_for_loop one)
  moreover have "(\<Union>i \<in> {0..<n}. D) = D" using n by auto
  ultimately have all: "writes V D (for_loop n (\<lambda>i. launch (grid_of W H (T, T))
            (\<lambda>blockIdx. all_threads (T, T) blockIdx (convolution_kernel_global F a d_kernel))))"
    by simp
  have in_D: "nat (pixel_index soa W H C x y c) \<in> D"
    unfolding D_def using r by (intro grid_pixels_covered T) (simp_all add: W_def H_def C_def)
  have "pixel_index soa W H C x y c < W * H * C \<and> 0 \<le> pixel_index soa W H C x y c"
    using r pixel_index_bound [of x W y H c C soa] by (simp add: W_def H_def C_def)
  then have lt: "nat (pixel_index soa W H C x y c) < length d"
    using len by (simp add: W_def H_def C_def)
  show "for_loop n (\<lambda>i. launch (grid_of (arg_width a) (arg_height a) (T, T))
            (\<lambda>blockIdx. all_threads (T, T) blockIdx (convolution_kernel_global F a d_kernel))) d
           ! nat (pixel_index (arg_is_SoA a) (arg_width a) (arg_height a) (arg_channels a) x y c)
         = store_u8 (device_sum F a d_kernel c y x)"
    using writes_nth [OF all in_D lt] V [of c y x] r
    by (simp add: W_def H_def C_def soa_def)
  show "length (for_loop n (\<lambda>i. launch (grid_of (arg_width a) (arg_height a) (T, T))
            (\<lambda>blockIdx. all_threads (T, T) blockIdx (convolution_kernel_global F a d_kernel))) d)
         = length d"
    using writes_length [OF all] by (simp add: W_def H_def)
qed

lemma for_loop2_fold:
  "for_loop H (\<lambda>y. for_loop W (\<lambda>x. body y x)) s
   = fold (\<lambda>(y, x). body y x) (List.product [0..H - 1] [0..W - 1]) s"
  unfolding for_loop_eq by (rule fold_product)

lemma device_sum_weighted_sum:
  assumes k: "valid_kernel_dims (k_width kern) (k_height kern)"
    and pd: "width padded = width img + 2 * half_floor (k_width kern)"
            "height padded = height img + 2 * half_floor (k_height kern)"
            "channels padded = channels img" "is_SoA padded = is_SoA img"
            "length (data padded) = get_size padded"
    and dk: "\<And>i. i < Kernel_get_size kern \<Longrightarrow> d_kernel ! i = k_data kern ! i"
  shows "device_sum F (args_of img kern padded (half_floor (k_width kern)) (half_floor (k_height kern)))
           d_kernel c y x
         = weighted_sum F padded kern c y x"
proof -
  define kw where "kw = k_width kern"
  define kh where "kh = k_height kern"
  define a where "a = args_of img kern padded (half_floor kw) (half_floor kh)"
  have kk: "kh = kw" "0 < kw"
    using k by (simp_all add: valid_kernel_dims_def kw_def kh_def)
  define g1 where "g1 = (\<lambda>(ky, kx) output_value.
         (let col = x + kx - half_floor (arg_kernel_width a) + arg_padding_width a;
              row = y + ky - half_floor (arg_kernel_height a) + arg_padding_height a
          in f_add F output_value
               (f_mul F
                  (float_of_u8 (get_pixel_value (d_input a) col row c
                      (arg_width a + (2 * arg_padding_width a))
                      (arg_height a + (2 * arg_padding_height a))
                      (arg_channels a) (arg_is_SoA a)))
                  (get_kernel_value d_kernel kx ky
                      (arg_kernel_width a) (arg_kernel_height a)))))"
  define g2 where "g2 = (\<lambda>(ky, kx) acc.
            f_add F acc (f_mul F (float_of_u8 (pixel_of padded (x + kx) (y + ky) c))
                                  (weight_of kern kx ky)))"
  have 1: "device_sum F a d_kernel c y x = fold g1 (window kern) 0"
    unfolding device_sum_def for_loop2_fold g1_def window_def
    by (simp add: a_def args_of_def kw_def kh_def)
  have 2: "weighted_sum F padded kern c y x = fold g2 (window kern) 0"
    by (simp add: weighted_sum_def g2_def)
  have "fold g1 (window kern) 0 = fold g2 (window kern) 0"
  proof (rule fold_cong [OF refl refl])
    fix q assume qin: "q \<in> set (window kern)"
    obtain ky kx where q: "q = (ky, kx)"
      by (cases q) auto
    have w: "0 \<le> ky" "ky < kh" "0 \<le> kx" "kx < kw"
      using qin q by (simp_all add: kw_def kh_def)
    have "0 \<le> ky * kw + kx \<and> ky * kw + kx < kh * kw"
      using radix_bound [of kx kw ky kh] w by simp
    then have "nat (ky * kw + kx) < Kernel_get_size kern"
      by (simp add: Kernel_get_size_def kw_def kh_def mult.commute)
    then have wt: "get_kernel_value d_kernel kx ky kw kh = weight_of kern kx ky"
      using dk by (simp add: get_kernel_value_def weight_of_def kw_def)
    have px: "get_pixel_value (d_input a) (x + kx) (y + ky) c
                      (arg_width a + (2 * arg_padding_width a))
                      (arg_height a + (2 * arg_padding_height a))
                      (arg_channels a) (arg_is_SoA a)
              = pixel_of padded (x + kx) (y + ky) c"
      using pd by (simp add: get_pixel_value_def pixel_of_def Image_index_def a_def args_of_def
          kw_def kh_def)
    show "g1 q = g2 q"
      using wt px
      by (simp add: g1_def g2_def q Let_def a_def args_of_def kw_def kh_def)
  qed
  then show ?thesis using 1 2 by (simp add: a_def kw_def kh_def)
qed

lemma half_floor_sdiv: "0 \<le> k \<Longrightarrow> half_floor k = k sdiv 2"
  by (simp add: half_floor_div sdiv_two_nonneg)

text \<open>The host function of a launch-based strategy, given what its launches leave in the
  output buffer, returns what the sequential convolution returns.\<close>

lemma device_output_convolve:
  assumes wf: "wf_image img" and k: "valid_kernel_dims (k_width kern) (k_height kern)"
    and p: "padding img (half_floor (k_width kern)) (half_floor (k_height kern)) pt = Inr padded"
    and len: "length d_output = get_size img"
    and px: "\<And>c y x. 0 \<le> c \<Longrightarrow> c < channels img \<Longrightarrow> 0 \<le> y \<Longrightarrow> y < height img
               \<Longrightarrow> 0 \<le> x \<Longrightarrow> x < width img
               \<Longrightarrow> d_output ! nat (pixel_index (is_SoA img) (width img) (height img) (channels img) x y c)
                   = store_u8 (weighted_sum F padded kern c y x)"
  shows "convolve F img kern pt
         = Inr (Image_from (width img) (height img) (channels img) d_output (is_SoA img))"
proof -
  have hs: "half_floor (k_width kern) = k_width kern sdiv 2"
    "half_floor (k_height kern) = k_height kern sdiv 2"
    using k by (simp_all add: half_floor_sdiv valid_kernel_dims_def)
  obtain out where c: "convolve F img kern pt = Inr out"
    and od: "width out = width img" "height out = height img" "channels out = channels img"
      "is_SoA out = is_SoA img" "length (data out) = nat (width img * height img * channels img)"
    and opx: "\<And>c y x. 0 \<le> c \<and> c < channels img \<and> 0 \<le> y \<and> y < height img \<and> 0 \<le> x \<and> x < width img
           \<Longrightarrow> Image_at out x y c = Inr (store_u8 (weighted_sum F padded kern c y x))"
    using convolve_pixels [OF k, of img pt padded F] p by (auto simp: hs)
  define dev where "dev = Image_from (width img) (height img) (channels img) d_output (is_SoA img)"
  have dd: "width dev = width img" "height dev = height img" "channels dev = channels img"
    "is_SoA dev = is_SoA img" "data dev = d_output"
    using len by (simp_all add: dev_def Image_from_def Image_new_def get_size_def)
  have "data out = data dev"
  proof (rule Image_eqI)
    show "wf_image out"
      using wf od by (simp add: wf_image_def get_size_def)
    show "length (data dev) = get_size dev"
      using dd len by (simp add: get_size_def)
    fix c y x
    assume r: "0 \<le> c" "c < channels out" "0 \<le> y" "y < height out" "0 \<le> x" "x < width out"
    have "Image_at dev x y c = Inr (store_u8 (weighted_sum F padded kern c y x))"
      using r od dd px [of c y x]
      by (simp add: Image_at_def coords_invalid_def Image_index_def)
    then show "Image_at out x y c = Image_at dev x y c"
      using opx [of c y x] r od by simp
  qed (simp_all add: od dd)
  then have "out = dev"
    using od dd by (intro Image.equality) simp_all
  then show ?thesis using c by (simp add: dev_def)
qed

lemma args_of_simps [simp]:
  "arg_width (args_of img kern padded pw ph) = width img"
  "arg_height (args_of img kern padded pw ph) = height img"
  "arg_channels (args_of img kern padded pw ph) = channels img"
  "arg_is_SoA (args_of img kern padded pw ph) = is_SoA img"
  "arg_kernel_width (args_of img kern padded pw ph) = k_width kern"
  "arg_kernel_height (args_of img kern padded pw ph) = k_height kern"
  "arg_padding_width (args_of img kern padded pw ph) = pw"
  "arg_padding_height (args_of img kern padded pw ph) = ph"
  by (simp_all add: args_of_def)

lemma TILE_WIDTH_pos: "0 < TILE_WIDTH" and ITERATIONS_pos: "0 < ITERATIONS"
  by (simp_all add: TILE_WIDTH_def ITERATIONS_def)

lemma length_uninitialized [simp]: "length (uninitialized junk n) = n"
  by (simp add: uninitialized_def)

lemma padded_facts:
  assumes "padding img pw ph pt = Inr padded"
  shows "width padded = width img + 2 * pw" "height padded = height img + 2 * ph"
    "channels padded = channels img" "is_SoA padded = is_SoA img"
    "length (data padded) = get_size padded"
  using padding_Inr_pixels(1) [OF assms] by (simp_all add: get_size_def mult.commute)

text \<open>The launches of the global-memory kernel on a weight buffer that holds the
  kernel's weights leave the output of the sequential convolution.\<close>

lemma global_strategy:
  assumes wf: "wf_image img" and k: "valid_kernel_dims (k_width kern) (k_height kern)"
    and p: "padding img (half_floor (k_width kern)) (half_floor (k_height kern)) pt = Inr padded"
    and dk: "\<And>i. i < Kernel_get_size kern \<Longrightarrow> d_kernel ! i = k_data kern ! i"
  shows "Inr (Image_from (width img) (height img) (channels img)
           (for_loop ITERATIONS (\<lambda>i.
              launch (grid_of (width img) (height img) (TILE_WIDTH, TILE_WIDTH))
                (\<lambda>blockIdx. all_threads (TILE_WIDTH, TILE_WIDTH) blockIdx
                   (convolution_kernel_global F
                      (args_of img kern padded (half_floor (k_width kern))
                         (half_floor (k_height kern)))
                      d_kernel)))
              (uninitialized junk (get_size img)))
           (is_SoA img))
         = convolve F img kern pt"
proof -
  define a where "a = args_of img kern padded (half_floor (k_width kern)) (half_floor (k_height kern))"
  define d_output where "d_output = for_loop ITERATIONS (\<lambda>i.
       launch (grid_of (width img) (height img) (TILE_WIDTH, TILE_WIDTH))
         (\<lambda>blockIdx. all_threads (TILE_WIDTH, TILE_WIDTH) blockIdx
              (convolution_kernel_global F a d_kernel)))
       (uninitialized junk (get_size img))"
  have len0: "length (uninitialized junk (get_size img))
      = nat (arg_width a * arg_height a * arg_channels a)"
    by (simp add: a_def get_size_def)
  have "convolve F img kern pt
         = Inr (Image_from (width img) (height img) (channels img) d_output (is_SoA img))"
  proof (rule device_output_convolve [OF wf k p])
    show "length d_output = get_size img"
      unfolding d_output_def
      using global_launches(2) [OF TILE_WIDTH_pos ITERATIONS_pos _ _ _ _ _ _ len0,
          of 0 0 0 F d_kernel] wf
      by (simp add: a_def wf_image_def)
  next
    fix c y x
    assume r: "0 \<le> c" "c < channels img" "0 \<le> y" "y < height img" "0 \<le> x" "x < width img"
    have "d_output ! nat (pixel_index (is_SoA img) (width img) (height img) (channels img) x y c)
        = store_u8 (device_sum F a d_kernel c y x)"
      unfolding d_output_def
      using global_launches(1) [OF TILE_WIDTH_pos ITERATIONS_pos _ _ _ _ _ _ len0,
          of c y x F d_kernel] r
      by (simp add: a_def)
    also have "device_sum F a d_kernel c y x = weighted_sum F padded kern c y x"
      unfolding a_def
      by (rule device_sum_weighted_sum [OF k padded_facts [OF p]]) (rule dk)
    finally show "d_output ! nat (pixel_index (is_SoA img) (width img) (height img) (channels img) x y c)
        = store_u8 (weighted_sum F padded kern c y x)" .
  qed
  then show ?thesis by (simp add: d_output_def a_def)
qed

lemma convolve_padding_Inl:
  assumes k: "valid_kernel_dims (k_width kern) (k_height kern)"
    and "padding img (half_floor (k_width kern)) (half_floor (k_height kern)) pt = Inl e"
  shows "convolve F img kern pt = Inl e"
proof -
  have hs: "half_floor (k_width kern) = k_width kern sdiv 2"
    "half_floor (k_height kern) = k_height kern sdiv 2"
    using k by (simp_all add: half_floor_sdiv valid_kernel_dims_def)
  show ?thesis
    using assms(2) by (simp add: convolve_def Let_def hs)
qed

text \<open>The global-memory strategy returns what the sequential one returns, also when the
  padding throws.\<close>

lemma convolve_global_eq:
  assumes wf: "wf_image img" and k: "valid_kernel_dims (k_width kern) (k_height kern)"
  shows "convolve_global F img kern pt junk = convolve F img kern pt"
proof (cases "padding img (half_floor (k_width kern)) (half_floor (k_height kern)) pt")
  case (Inl e)
  then show ?thesis
    using convolve_padding_Inl [OF k Inl, of F] by (simp add: convolve_global_def Let_def)
next
  case (Inr padded)
  have "take (Kernel_get_size kern) (k_data kern) ! i = k_data kern ! i"
    if "i < Kernel_get_size kern" for i
    using that by simp
  from global_strategy [OF wf k Inr this, of F junk]
  show ?thesis
    using Inr by (simp add: convolve_global_def Let_def)
qed

lemma convolution_kernel_constant_eq:
  "convolution_kernel_constant F a c_kernel = convolution_kernel_global F a c_kernel"
  by (intro ext) (simp add: convolution_kernel_constant_def convolution_kernel_global_def)

lemma c_kernel_weights:
  assumes "wf_kernel kern" "copy_to_c_kernel c_kernel0 kern = Inr c_kernel" "i < Kernel_get_size kern"
  shows "c_kernel ! i = k_data kern ! i"
  using assms by (auto simp: copy_to_c_kernel_def wf_kernel_def nth_append split: if_splits)

text \<open>So does the constant-memory strategy, for a kernel that fits the constant array.\<close>

lemma convolve_constant_eq:
  assumes wf: "wf_image img" and k: "wf_kernel kern"
    and fit: "k_width kern * k_height kern \<le> MAX_MASK_WIDTH * MAX_MASK_WIDTH"
  shows "convolve_constant F img kern pt junk c_kernel0 = convolve F img kern pt"
proof (cases "padding img (half_floor (k_width kern)) (half_floor (k_height kern)) pt")
  case (Inl e)
  have v: "valid_kernel_dims (k_width kern) (k_height kern)"
    using k by (simp add: wf_kernel_def)
  show ?thesis
    using convolve_padding_Inl [OF v Inl, of F] Inl by (simp add: convolve_constant_def Let_def)
next
  case (Inr padded)
  have v: "valid_kernel_dims (k_width kern) (k_height kern)"
    using k by (simp add: wf_kernel_def)
  obtain c_kernel where c: "copy_to_c_kernel c_kernel0 kern = Inr c_kernel"
    using fit by (simp add: copy_to_c_kernel_def)
  from global_strategy [OF wf v Inr c_kernel_weights [OF k c], of F junk]
  show ?thesis
    using Inr c by (simp add: convolve_constant_def Let_def convolution_kernel_constant_eq)
qed

section \<open>Kernel launches: shared memory\<close>

lemma int_div_less_iff:
  fixes i n m :: int
  assumes "0 < n" "0 \<le> i"
  shows "i div n < m \<longleftrightarrow> i < m * n"
proof
  assume a: "i div n < m"
  have "i = (i div n) * n + i mod n" by simp
  moreover have "i mod n < n" using assms by simp
  moreover have "(i div n + 1) * n = (i div n) * n + n" by (simp add: algebra_simps)
  ultimately have "i < (i div n + 1) * n"
    by linarith
  moreover have "(i div n + 1) * n \<le> m * n"
    using a assms by (intro mult_right_mono) auto
  ultimately show "i < m * n" by linarith
next
  assume a: "i < m * n"
  show "i div n < m"
  proof (rule ccontr)
    assume "\<not> i div n < m"
    then have "m * n \<le> (i div n) * n"
      using assms by (intro mult_right_mono) auto
    moreover have "(i div n) * n \<le> i"
      using assms div_mult_mod_eq [of i n] pos_mod_sign [of n i] by linarith
    ultimately show False using a by linarith
  qed
qed

lemma sdiv_nonneg: "0 \<le> i \<Longrightarrow> 0 < n \<Longrightarrow> i sdiv n = i div (n :: int)"
  by (simp add: signed_divide_int_def sgn_if)

lemma smod_nonneg: "0 \<le> i \<Longrightarrow> 0 < n \<Longrightarrow> i smod n = i mod (n :: int)"
  by (simp add: signed_modulo_int_def sgn_if)

lemma load_first_eq:
  "load_first a channel t s
   = s[nat ((threadIdx_y t * blockDim_x t) + threadIdx_x t) :=
         staged_value a channel (blockDim_x t, blockDim_y t) (blockIdx_x t, blockIdx_y t)
           (arg_padding_width a) ((threadIdx_y t * blockDim_x t) + threadIdx_x t)]"
  by (simp add: load_first_def staged_value_def Let_def)

lemma load_last_eq:
  "load_last a channel t s
   = (if ((threadIdx_y t * blockDim_x t) + threadIdx_x t + (blockDim_x t * blockDim_y t))
           sdiv (blockDim_x t + (arg_kernel_width a - 1))
         < blockDim_y t + (arg_kernel_height a - 1)
      then s[nat ((threadIdx_y t * blockDim_x t) + threadIdx_x t + (blockDim_x t * blockDim_y t)) :=
         staged_value a channel (blockDim_x t, blockDim_y t) (blockIdx_x t, blockIdx_y t)
           (arg_padding_height a)
           ((threadIdx_y t * blockDim_x t) + threadIdx_x t + (blockDim_x t * blockDim_y t))]
      else s)"
  by (simp add: load_last_def staged_value_def Let_def)

lemma loads_thread_writes:
  assumes bd: "0 < bdx" "0 < bdy" and kk: "1 \<le> arg_kernel_width a"
    and t: "0 \<le> tx" "tx < bdx" "0 \<le> ty" "ty < bdy"
  shows "writes (tile_value a channel (bdx, bdy) (bx, by)) (thread_loads a (bdx, bdy) tx ty)
           (\<lambda>s. load_last a channel
                   \<lparr>blockIdx_x = bx, blockIdx_y = by, blockDim_x = bdx, blockDim_y = bdy,
                    threadIdx_x = tx, threadIdx_y = ty\<rparr>
                   (load_first a channel
                     \<lparr>blockIdx_x = bx, blockIdx_y = by, blockDim_x = bdx, blockDim_y = bdy,
                      threadIdx_x = tx, threadIdx_y = ty\<rparr> s))"
proof -
  define V where "V = tile_value a channel (bdx, bdy) (bx, by)"
  define i1 where "i1 = ty * bdx + tx"
  define i2 where "i2 = ty * bdx + tx + bdx * bdy"
  define sw where "sw = bdx + (arg_kernel_width a - 1)"
  define sh where "sh = bdy + (arg_kernel_height a - 1)"
  have b1: "0 \<le> i1 \<and> i1 < bdy * bdx"
    using radix_bound [of tx bdx ty bdy] t by (simp add: i1_def)
  have sw: "0 < sw" using bd kk by (simp add: sw_def)
  have "0 \<le> bdx * bdy" using bd by simp
  then have i2: "0 \<le> i2" "bdx * bdy \<le> i2" using b1 by (simp_all add: i2_def i1_def)
  have v1: "V (nat i1) = staged_value a channel (bdx, bdy) (bx, by) (arg_padding_width a) i1"
    using b1 by (simp add: V_def tile_value_def mult.commute)
  have v2: "V (nat i2) = staged_value a channel (bdx, bdy) (bx, by) (arg_padding_height a) i2"
    using i2 by (simp add: V_def tile_value_def)
  have c: "i2 sdiv sw < sh \<longleftrightarrow> i2 < sw * sh"
    using sw i2 by (simp add: sdiv_nonneg int_div_less_iff mult.commute)
  define t where "t = \<lparr>blockIdx_x = bx, blockIdx_y = by, blockDim_x = bdx, blockDim_y = bdy,
                    threadIdx_x = tx, threadIdx_y = ty\<rparr>"
  have lf: "load_first a channel t s = s[nat i1 := V (nat i1)]" for s
    unfolding v1 by (simp add: load_first_eq t_def i1_def)
  have ll: "load_last a channel t s = (if i2 < sw * sh then s[nat i2 := V (nat i2)] else s)" for s
    unfolding v2 c [symmetric] by (simp add: load_last_eq t_def i2_def sw_def sh_def)
  have w1: "writes V {nat i1} (\<lambda>s. s[nat i1 := V (nat i1)])"
    by (rule writes_update)
  have w2: "writes V (if i2 < sw * sh then {nat i2} else {})
              (\<lambda>s. if i2 < sw * sh then s[nat i2 := V (nat i2)] else s)"
    using writes_update [of V "nat i2"] writes_skip [of V] by simp
  have "writes V ({nat i1} \<union> (if i2 < sw * sh then {nat i2} else {}))
          (\<lambda>s. (\<lambda>s. if i2 < sw * sh then s[nat i2 := V (nat i2)] else s) (s[nat i1 := V (nat i1)]))"
    by (rule writes_compose [OF w1 w2])
  then have "writes V ({nat i1} \<union> (if i2 < sw * sh then {nat i2} else {}))
          (\<lambda>s. load_last a channel t (load_first a channel t s))"
    by (simp only: lf ll)
  moreover have "thread_loads a (bdx, bdy) tx ty = {nat i1} \<union> (if i2 < sw * sh then {nat i2} else {})"
    by (simp add: thread_loads_def i1_def i2_def sw_def sh_def)
  ultimately show ?thesis
    by (simp only: V_def t_def)
qed

lemma staged_union:
  assumes bd: "0 < bdx" "0 < bdy" and kk: "1 \<le> arg_kernel_width a" "1 \<le> arg_kernel_height a"
  shows "(\<Union>ty \<in> {0..<bdy}. \<Union>tx \<in> {0..<bdx}. thread_loads a (bdx, bdy) tx ty) = staged a (bdx, bdy)"
proof (intro set_eqI iffI)
  define sw where "sw = bdx + (arg_kernel_width a - 1)"
  define sh where "sh = bdy + (arg_kernel_height a - 1)"
  have big: "bdx * bdy \<le> sw * sh"
    using bd kk by (intro mult_mono) (simp_all add: sw_def sh_def)
  {
    fix j assume "j \<in> (\<Union>ty \<in> {0..<bdy}. \<Union>tx \<in> {0..<bdx}. thread_loads a (bdx, bdy) tx ty)"
    then obtain ty tx where t: "0 \<le> ty" "ty < bdy" "0 \<le> tx" "tx < bdx"
      and j: "j \<in> thread_loads a (bdx, bdy) tx ty"
      by auto
    have b1: "0 \<le> ty * bdx + tx \<and> ty * bdx + tx < bdy * bdx"
      using radix_bound [of tx bdx ty bdy] t by simp
    show "j \<in> staged a (bdx, bdy)"
      using j b1 big
      by (auto simp: thread_loads_def staged_def sw_def sh_def mult.commute split: if_splits)
  }
  {
    fix j assume "j \<in> staged a (bdx, bdy)"
    then have j: "int j < 2 * (bdx * bdy)" "int j < sw * sh"
      by (simp_all add: staged_def sw_def sh_def)
    show "j \<in> (\<Union>ty \<in> {0..<bdy}. \<Union>tx \<in> {0..<bdx}. thread_loads a (bdx, bdy) tx ty)"
    proof (cases "int j < bdx * bdy")
      case True
      then have "int j < bdy * bdx" by (simp add: mult.commute)
      from radix_split [OF _ this bd(1)]
      have s: "0 \<le> int j mod bdx \<and> int j mod bdx < bdx \<and> 0 \<le> int j div bdx \<and> int j div bdx < bdy
          \<and> int j div bdx * bdx + int j mod bdx = int j"
        by simp
      then have "j \<in> thread_loads a (bdx, bdy) (int j mod bdx) (int j div bdx)"
        by (simp add: thread_loads_def)
      moreover have "int j div bdx \<in> {0..<bdy}" "int j mod bdx \<in> {0..<bdx}"
        using s by simp_all
      ultimately show ?thesis by blast
    next
      case False
      define r where "r = int j - bdx * bdy"
      have r: "0 \<le> r" "r < bdy * bdx"
        using False j by (simp_all add: r_def mult.commute)
      from radix_split [OF r bd(1)]
      have s: "0 \<le> r mod bdx \<and> r mod bdx < bdx \<and> 0 \<le> r div bdx \<and> r div bdx < bdy
          \<and> r div bdx * bdx + r mod bdx = r"
        by simp
      then have "r div bdx * bdx + r mod bdx + bdx * bdy = int j"
        by (simp add: r_def)
      then have "j \<in> thread_loads a (bdx, bdy) (r mod bdx) (r div bdx)"
        using j by (simp add: thread_loads_def sw_def sh_def)
      moreover have "r div bdx \<in> {0..<bdy}" "r mod bdx \<in> {0..<bdx}"
        using s by simp_all
      ultimately show ?thesis by blast
    qed
  }
qed

text \<open>Up to the first barrier of a channel the threads of a block overwrite the staged
  positions of the tile and nothing else.\<close>

lemma loads_write_staged:
  assumes bd: "0 < bdx" "0 < bdy" and kk: "1 \<le> arg_kernel_width a" "1 \<le> arg_kernel_height a"
  shows "writes (tile_value a channel (bdx, bdy) (bx, by)) (staged a (bdx, bdy))
           (all_threads (bdx, bdy) (bx, by)
              (\<lambda>t s_data. load_last a channel t (load_first a channel t s_data)))"
proof -
  have "writes (tile_value a channel (bdx, bdy) (bx, by))
          (\<Union>ty \<in> {0..<bdy}. \<Union>tx \<in> {0..<bdx}. thread_loads a (bdx, bdy) tx ty)
          (for_loop bdy (\<lambda>ty. for_loop bdx (\<lambda>tx s.
             load_last a channel
                   \<lparr>blockIdx_x = bx, blockIdx_y = by, blockDim_x = bdx, blockDim_y = bdy,
                    threadIdx_x = tx, threadIdx_y = ty\<rparr>
                   (load_first a channel
                     \<lparr>blockIdx_x = bx, blockIdx_y = by, blockDim_x = bdx, blockDim_y = bdy,
                      threadIdx_x = tx, threadIdx_y = ty\<rparr> s))))"
    by (intro writes_for_loop loads_thread_writes bd kk)
  then show ?thesis
    by (simp add: staged_union [OF bd kk] all_threads_eq)
qed

lemma loads_give_tile:
  assumes bd: "0 < bdx" "0 < bdy" and kk: "1 \<le> arg_kernel_width a" "1 \<le> arg_kernel_height a"
    and len: "length s = length s0"
    and inv: "\<And>j. j < length s0 \<Longrightarrow> j \<notin> staged a (bdx, bdy) \<Longrightarrow> s ! j = s0 ! j"
  shows "all_threads (bdx, bdy) (bx, by)
              (\<lambda>t s_data. load_last a channel t (load_first a channel t s_data)) s
         = tile a channel (bdx, bdy) (bx, by) s0"
proof (rule nth_equalityI)
  note w = loads_write_staged [OF bd kk, of channel bx "by"]
  show "length (all_threads (bdx, bdy) (bx, by)
              (\<lambda>t s_data. load_last a channel t (load_first a channel t s_data)) s)
        = length (tile a channel (bdx, bdy) (bx, by) s0)"
    using writes_length [OF w, of s] len by (simp add: tile_def)
  fix j
  assume "j < length (all_threads (bdx, bdy) (bx, by)
              (\<lambda>t s_data. load_last a channel t (load_first a channel t s_data)) s)"
  then have j: "j < length s0"
    using writes_length [OF w, of s] len by simp
  show "all_threads (bdx, bdy) (bx, by)
              (\<lambda>t s_data. load_last a channel t (load_first a channel t s_data)) s ! j
        = tile a channel (bdx, bdy) (bx, by) s0 ! j"
    using w j len inv [of j] by (simp add: writes_def tile_def)
qed

lemma tile_length [simp]: "length (tile a channel bd b s0) = length s0"
  by (simp add: tile_def)

lemma tile_unstaged:
  "j < length s0 \<Longrightarrow> j \<notin> staged a bd \<Longrightarrow> tile a channel bd b s0 ! j = s0 ! j"
  by (simp add: tile_def)

lemma tile_staged:
  "j < length s0 \<Longrightarrow> j \<in> staged a bd \<Longrightarrow> tile a channel bd b s0 ! j = tile_value a channel bd b j"
  by (simp add: tile_def)

text \<open>One block of the tiled kernel: in every channel the sums are taken from \<open>tile\<close>.\<close>

lemma shared_block_channels:
  assumes bd: "0 < bdx" "0 < bdy" and kk: "1 \<le> arg_kernel_width a" "1 \<le> arg_kernel_height a"
    and len: "length s = length s0"
    and inv: "\<And>j. j < length s0 \<Longrightarrow> j \<notin> staged a (bdx, bdy) \<Longrightarrow> s ! j = s0 ! j"
  shows "snd (fold (\<lambda>channel (s_data, d_output).
            (let s_data = all_threads (bdx, bdy) (bx, by)
                            (\<lambda>t s_data. load_last a channel t (load_first a channel t s_data))
                            s_data;
                 d_output = all_threads (bdx, bdy) (bx, by)
                              (convolve_tile F a c_kernel channel s_data) d_output
             in (s_data, d_output))) cs (s, d))
         = fold (\<lambda>channel. all_threads (bdx, bdy) (bx, by)
                   (convolve_tile F a c_kernel channel (tile a channel (bdx, bdy) (bx, by) s0)))
             cs d"
  using len inv
proof (induction cs arbitrary: s d)
  case Nil
  then show ?case by simp
next
  case (Cons c cs)
  define f where "f = (\<lambda>channel (s_data, d_output).
            (let s_data = all_threads (bdx, bdy) (bx, by)
                            (\<lambda>t s_data. load_last a channel t (load_first a channel t s_data))
                            s_data;
                 d_output = all_threads (bdx, bdy) (bx, by)
                              (convolve_tile F a c_kernel channel s_data) d_output
             in (s_data, d_output)))"
  have st: "all_threads (bdx, bdy) (bx, by)
              (\<lambda>t s_data. load_last a c t (load_first a c t s_data)) s
         = tile a c (bdx, bdy) (bx, by) s0"
    using Cons.prems by (intro loads_give_tile bd kk) auto
  have step: "f c (s, d) = (tile a c (bdx, bdy) (bx, by) s0,
       all_threads (bdx, bdy) (bx, by)
         (convolve_tile F a c_kernel c (tile a c (bdx, bdy) (bx, by) s0)) d)"
    by (simp add: f_def st Let_def)
  have "snd (fold f cs (tile a c (bdx, bdy) (bx, by) s0,
       all_threads (bdx, bdy) (bx, by)
         (convolve_tile F a c_kernel c (tile a c (bdx, bdy) (bx, by) s0)) d))
     = fold (\<lambda>channel. all_threads (bdx, bdy) (bx, by)
                   (convolve_tile F a c_kernel channel (tile a channel (bdx, bdy) (bx, by) s0)))
             cs (all_threads (bdx, bdy) (bx, by)
         (convolve_tile F a c_kernel c (tile a c (bdx, bdy) (bx, by) s0)) d)"
    unfolding f_def by (rule Cons.IH) (simp_all add: tile_unstaged)
  then have "snd (fold f (c # cs) (s, d))
     = fold (\<lambda>channel. all_threads (bdx, bdy) (bx, by)
                   (convolve_tile F a c_kernel channel (tile a channel (bdx, bdy) (bx, by) s0)))
             (c # cs) d"
    by (simp add: step)
  then show ?case unfolding f_def .
qed

lemma convolution_kernel_shared_eq:
  assumes bd: "0 < bdx" "0 < bdy" and kk: "1 \<le> arg_kernel_width a" "1 \<le> arg_kernel_height a"
  shows "convolution_kernel_shared F a c_kernel (bdx, bdy) (bx, by) s0 d
         = for_loop (arg_channels a) (\<lambda>channel. all_threads (bdx, bdy) (bx, by)
                   (convolve_tile F a c_kernel channel (tile a channel (bdx, bdy) (bx, by) s0))) d"
  unfolding convolution_kernel_shared_def for_loop_eq
  by (rule shared_block_channels [OF bd kk]) simp_all

lemma convolve_tile_eq:
  assumes bd: "0 < bdx" "0 < bdy" and t: "0 \<le> tx" "tx < bdx" "0 \<le> ty" "ty < bdy"
  shows "convolve_tile F a c_kernel channel (tile a channel (bdx, bdy) (bx, by) s0)
           \<lparr>blockIdx_x = bx, blockIdx_y = by, blockDim_x = bdx, blockDim_y = bdy,
            threadIdx_x = tx, threadIdx_y = ty\<rparr> d
         = (if bx * bdx + tx < arg_width a \<and> by * bdy + ty < arg_height a
            then d[nat (pixel_index (arg_is_SoA a) (arg_width a) (arg_height a) (arg_channels a)
                          (bx * bdx + tx) (by * bdy + ty) channel)
                   := store_u8 (shared_sum F a c_kernel (bdx, bdy) s0 channel
                                  (by * bdy + ty) (bx * bdx + tx))]
            else d)"
proof -
  have x: "(bx * bdx + tx) div bdx = bx" "(bx * bdx + tx) mod bdx = tx"
    using radix_div_mod [of tx bdx bx] t by simp_all
  have y: "(by * bdy + ty) div bdy = by" "(by * bdy + ty) mod bdy = ty"
    using radix_div_mod [of ty bdy "by"] t by simp_all
  have m: "tx mod bdx = tx" "ty mod bdy = ty" "tx div bdx = 0" "ty div bdy = 0"
    using t by (simp_all add: mod_pos_pos_trivial div_pos_pos_trivial)
  show ?thesis
    by (simp add: convolve_tile_def shared_sum_def Let_def set_pixel_value_def x y m)
qed

lemma tile_thread_writes:
  assumes V: "\<And>c y x. 0 \<le> c \<Longrightarrow> c < arg_channels a \<Longrightarrow> 0 \<le> y \<Longrightarrow> y < arg_height a
               \<Longrightarrow> 0 \<le> x \<Longrightarrow> x < arg_width a
               \<Longrightarrow> V (nat (pixel_index (arg_is_SoA a) (arg_width a) (arg_height a) (arg_channels a) x y c))
                   = store_u8 (shared_sum F a c_kernel (bdx, bdy) s0 c y x)"
    and bd: "0 < bdx" "0 < bdy" and b: "0 \<le> bx" "0 \<le> by"
    and t: "0 \<le> tx" "tx < bdx" "0 \<le> ty" "ty < bdy"
    and c: "0 \<le> c" "c < arg_channels a"
  shows "writes V
           (if bx * bdx + tx < arg_width a \<and> by * bdy + ty < arg_height a
            then {nat (pixel_index (arg_is_SoA a) (arg_width a) (arg_height a) (arg_channels a)
                          (bx * bdx + tx) (by * bdy + ty) c)}
            else {})
           (convolve_tile F a c_kernel c (tile a c (bdx, bdy) (bx, by) s0)
              \<lparr>blockIdx_x = bx, blockIdx_y = by, blockDim_x = bdx, blockDim_y = bdy,
               threadIdx_x = tx, threadIdx_y = ty\<rparr>)"
proof -
  define x where "x = bx * bdx + tx"
  define y where "y = by * bdy + ty"
  define i where "i = nat (pixel_index (arg_is_SoA a) (arg_width a) (arg_height a) (arg_channels a) x y c)"
  have nn: "0 \<le> x" "0 \<le> y"
    using bd b t by (simp_all add: x_def y_def)
  have eq: "convolve_tile F a c_kernel c (tile a c (bdx, bdy) (bx, by) s0)
           \<lparr>blockIdx_x = bx, blockIdx_y = by, blockDim_x = bdx, blockDim_y = bdy,
            threadIdx_x = tx, threadIdx_y = ty\<rparr>
         = (\<lambda>d. if x < arg_width a \<and> y < arg_height a
            then d[i := store_u8 (shared_sum F a c_kernel (bdx, bdy) s0 c y x)] else d)"
    by (intro ext) (simp add: convolve_tile_eq [OF bd t] x_def y_def i_def)
  show ?thesis
  proof (cases "x < arg_width a \<and> y < arg_height a")
    case True
    then have "V i = store_u8 (shared_sum F a c_kernel (bdx, bdy) s0 c y x)"
      using V [of c y x] c nn by (simp add: i_def)
    then have "writes V {i} (\<lambda>d. d[i := store_u8 (shared_sum F a c_kernel (bdx, bdy) s0 c y x)])"
      using writes_update [of V i] by simp
    then show ?thesis
      using True unfolding eq by (simp add: x_def y_def i_def)
  next
    case False
    then show ?thesis
      using writes_skip [of V] unfolding eq by (auto simp: x_def y_def)
  qed
qed

lemma shared_block_writes:
  assumes V: "\<And>c y x. 0 \<le> c \<Longrightarrow> c < arg_channels a \<Longrightarrow> 0 \<le> y \<Longrightarrow> y < arg_height a
               \<Longrightarrow> 0 \<le> x \<Longrightarrow> x < arg_width a
               \<Longrightarrow> V (nat (pixel_index (arg_is_SoA a) (arg_width a) (arg_height a) (arg_channels a) x y c))
                   = store_u8 (shared_sum F a c_kernel (bdx, bdy) s0 c y x)"
    and bd: "0 < bdx" "0 < bdy" and kk: "1 \<le> arg_kernel_width a" "1 \<le> arg_kernel_height a"
    and b: "0 \<le> bx" "0 \<le> by"
  shows "writes V (block_pixels a (bdx, bdy) bx by)
           (convolution_kernel_shared F a c_kernel (bdx, bdy) (bx, by) s0)"
proof -
  have "writes V (block_pixels a (bdx, bdy) bx by)
          (for_loop (arg_channels a) (\<lambda>channel. for_loop bdy (\<lambda>ty. for_loop bdx (\<lambda>tx.
             convolve_tile F a c_kernel channel (tile a channel (bdx, bdy) (bx, by) s0)
               \<lparr>blockIdx_x = bx, blockIdx_y = by, blockDim_x = bdx, blockDim_y = bdy,
                threadIdx_x = tx, threadIdx_y = ty\<rparr>))))"
    unfolding block_pixels_def fst_conv snd_conv
    by (intro writes_for_loop tile_thread_writes V bd b)
  moreover have "convolution_kernel_shared F a c_kernel (bdx, bdy) (bx, by) s0
      = for_loop (arg_channels a) (\<lambda>channel. for_loop bdy (\<lambda>ty. for_loop bdx (\<lambda>tx.
             convolve_tile F a c_kernel channel (tile a channel (bdx, bdy) (bx, by) s0)
               \<lparr>blockIdx_x = bx, blockIdx_y = by, blockDim_x = bdx, blockDim_y = bdy,
                threadIdx_x = tx, threadIdx_y = ty\<rparr>)))"
    by (intro ext) (simp add: convolution_kernel_shared_eq [OF bd kk] all_threads_eq)
  ultimately show ?thesis by simp
qed

lemma block_pixels_covered:
  assumes T: "0 < T" and r: "0 \<le> c" "c < arg_channels a" "0 \<le> y" "y < arg_height a"
    "0 \<le> x" "x < arg_width a"
  shows "nat (pixel_index (arg_is_SoA a) (arg_width a) (arg_height a) (arg_channels a) x y c)
         \<in> (\<Union>by \<in> {0..<(arg_height a + T - 1) sdiv T}. \<Union>bx \<in> {0..<(arg_width a + T - 1) sdiv T}.
              block_pixels a (T, T) bx by)"
proof -
  note gx = grid_covers [OF T r(5,6)]
  note gy = grid_covers [OF T r(3,4)]
  have "nat (pixel_index (arg_is_SoA a) (arg_width a) (arg_height a) (arg_channels a) x y c)
        \<in> (if x div T * T + x mod T < arg_width a \<and> y div T * T + y mod T < arg_height a
        then {nat (pixel_index (arg_is_SoA a) (arg_width a) (arg_height a) (arg_channels a)
                     (x div T * T + x mod T) (y div T * T + y mod T) c)}
        else {})"
    using r by simp
  moreover have "c \<in> {0..<arg_channels a}" "y mod T \<in> {0..<T}" "x mod T \<in> {0..<T}"
    using r gx gy by simp_all
  ultimately have "nat (pixel_index (arg_is_SoA a) (arg_width a) (arg_height a) (arg_channels a) x y c)
        \<in> block_pixels a (T, T) (x div T) (y div T)"
    unfolding block_pixels_def fst_conv snd_conv by blast
  moreover have "y div T \<in> {0..<(arg_height a + T - 1) sdiv T}"
    "x div T \<in> {0..<(arg_width a + T - 1) sdiv T}"
    using gx gy by simp_all
  ultimately show ?thesis by blast
qed

text \<open>One launch, and so any positive number of launches, of the tiled kernel stores
  \<open>store_u8 (shared_sum \<dots>)\<close> in every element of the output.\<close>

lemma shared_launches:
  assumes T: "0 < T" and n: "0 < n"
    and kk: "1 \<le> arg_kernel_width a" "1 \<le> arg_kernel_height a"
    and r: "0 \<le> c" "c < arg_channels a" "0 \<le> y" "y < arg_height a" "0 \<le> x" "x < arg_width a"
    and len: "length d = nat (arg_width a * arg_height a * arg_channels a)"
  shows "for_loop n (\<lambda>i. launch (grid_of (arg_width a) (arg_height a) (T, T))
            (\<lambda>blockIdx. convolution_kernel_shared F a c_kernel (T, T) blockIdx s0)) d
           ! nat (pixel_index (arg_is_SoA a) (arg_width a) (arg_height a) (arg_channels a) x y c)
         = store_u8 (shared_sum F a c_kernel (T, T) s0 c y x)"
    and "length (for_loop n (\<lambda>i. launch (grid_of (arg_width a) (arg_height a) (T, T))
            (\<lambda>blockIdx. convolution_kernel_shared F a c_kernel (T, T) blockIdx s0)) d)
         = length d"
proof -
  define W where "W = arg_width a"
  define H where "H = arg_height a"
  define C where "C = arg_channels a"
  define soa where "soa = arg_is_SoA a"
  obtain V where V: "\<And>c y x. 0 \<le> c \<and> c < C \<and> 0 \<le> y \<and> y < H \<and> 0 \<le> x \<and> x < W
         \<Longrightarrow> V (nat (pixel_index soa W H C x y c)) = store_u8 (shared_sum F a c_kernel (T, T) s0 c y x)"
    using index_function [of C H W soa "\<lambda>c y x. store_u8 (shared_sum F a c_kernel (T, T) s0 c y x)"]
    by blast
  define D where "D = (\<Union>by \<in> {0..<(H + T - 1) sdiv T}. \<Union>bx \<in> {0..<(W + T - 1) sdiv T}.
              block_pixels a (T, T) bx by)"
  have "writes V D (for_loop ((H + T - 1) sdiv T) (\<lambda>by. for_loop ((W + T - 1) sdiv T) (\<lambda>bx.
            convolution_kernel_shared F a c_kernel (T, T) (bx, by) s0)))"
    unfolding D_def
  proof (intro writes_for_loop shared_block_writes T kk)
    fix c y x
    assume "0 \<le> c" "c < arg_channels a" "0 \<le> y" "y < arg_height a" "0 \<le> x" "x < arg_width a"
    then show "V (nat (pixel_index (arg_is_SoA a) (arg_width a) (arg_height a) (arg_channels a) x y c))
        = store_u8 (shared_sum F a c_kernel (T, T) s0 c y x)"
      using V [of c y x] by (simp add: W_def H_def C_def soa_def)
  qed
  then have one: "writes V D (launch (grid_of W H (T, T))
            (\<lambda>blockIdx. convolution_kernel_shared F a c_kernel (T, T) blockIdx s0))"
    by (simp add: launch_eq grid_of_def)
  have "writes V (\<Union>i \<in> {0..<n}. D) (for_loop n (\<lambda>i. launch (grid_of W H (T, T))
            (\<lambda>blockIdx. convolution_kernel_shared F a c_kernel (T, T) blockIdx s0)))"
    by (intro writes_for_loop one)
  moreover have "(\<Union>i \<in> {0..<n}. D) = D" using n by auto
  ultimately have all: "writes V D (for_loop n (\<lambda>i. launch (grid_of W H (T, T))
            (\<lambda>blockIdx. convolution_kernel_shared F a c_kernel (T, T) blockIdx s0)))"
    by simp
  have in_D: "nat (pixel_index soa W H C x y c) \<in> D"
    unfolding D_def W_def H_def C_def soa_def using r by (intro block_pixels_covered T)
  have "pixel_index soa W H C x y c < W * H * C \<and> 0 \<le> pixel_index soa W H C x y c"
    using r pixel_index_bound [of x W y H c C soa] by (simp add: W_def H_def C_def)
  then have lt: "nat (pixel_index soa W H C x y c) < length d"
    using len by (simp add: W_def H_def C_def)
  show "for_loop n (\<lambda>i. launch (grid_of (arg_width a) (arg_height a) (T, T))
            (\<lambda>blockIdx. convolution_kernel_shared F a c_kernel (T, T) blockIdx s0)) d
           ! nat (pixel_index (arg_is_SoA a) (arg_width a) (arg_height a) (arg_channels a) x y c)
         = store_u8 (shared_sum F a c_kernel (T, T) s0 c y x)"
    using writes_nth [OF all in_D lt] V [of c y x] r
    by (simp add: W_def H_def C_def soa_def)
  show "length (for_loop n (\<lambda>i. launch (grid_of (arg_width a) (arg_height a) (T, T))
            (\<lambda>blockIdx. convolution_kernel_shared F a c_kernel (T, T) blockIdx s0)) d)
         = length d"
    using writes_length [OF all] by (simp add: W_def H_def)
qed

text \<open>A thread whose window lies in the staged part of the tile accumulates the weighted
  sum of the sequential convolution.\<close>

lemma shared_sum_weighted_sum:
  assumes k: "valid_kernel_dims (k_width kern) (k_height kern)"
    and pd: "width padded = width img + 2 * half_floor (k_width kern)"
            "height padded = height img + 2 * half_floor (k_height kern)"
            "channels padded = channels img" "is_SoA padded = is_SoA img"
            "length (data padded) = get_size padded"
    and ck: "\<And>i. i < Kernel_get_size kern \<Longrightarrow> c_kernel ! i = k_data kern ! i"
    and T: "0 < T"
    and r: "0 \<le> y" "y < height img" "0 \<le> x" "x < width img"
    and len: "length s0 = nat ((T + k_width kern - 1) * (T + k_height kern - 1))"
    and st: "(y mod T + k_height kern - 1) * (T + k_width kern - 1) + (x mod T + k_width kern - 1)
             < 2 * (T * T)"
  shows "shared_sum F (args_of img kern padded (half_floor (k_width kern)) (half_floor (k_height kern)))
           c_kernel (T, T) s0 c y x
         = weighted_sum F padded kern c y x"
proof -
  define kw where "kw = k_width kern"
  define kh where "kh = k_height kern"
  define pw where "pw = half_floor kw"
  define a where "a = args_of img kern padded pw (half_floor kh)"
  define sw where "sw = T + (kw - 1)"
  define sh where "sh = T + (kh - 1)"
  have alt: "T + kw - 1 = sw" "T + kh - 1 = sh" "ty + kh - 1 = ty + (kh - 1)" "tx + kw - 1 = tx + (kw - 1)" for tx ty
    by (simp_all add: sw_def sh_def)
  define tx where "tx = x mod T"
  define ty where "ty = y mod T"
  define bx where "bx = x div T"
  define "by" where "by = y div T"
  have kk: "kh = kw" "0 < kw" "odd kw"
    using k by (simp_all add: valid_kernel_dims_def kw_def kh_def)
  have kw2: "kw = 2 * pw + 1"
    using odd_half [OF kk(3)] by (simp add: pw_def half_floor_div)
  have t: "0 \<le> tx" "tx < T" "0 \<le> ty" "ty < T"
    using T by (simp_all add: tx_def ty_def)
  have xy: "bx * T + tx = x" "by * T + ty = y"
    by (simp_all add: bx_def by_def tx_def ty_def)
  have sw: "0 < sw" using T kk by (simp add: sw_def)
  define S where "S = tile a c (T, T) (bx, by) s0"
  define g1 where "g1 = (\<lambda>(ky, kx) output_value.
             f_add F output_value
               (f_mul F
                  (float_of_u8 (get_shared_pixel_value S (tx + kx) (ty + ky) sw sh))
                  (get_kernel_value c_kernel kx ky kw kh)))"
  define g2 where "g2 = (\<lambda>(ky, kx) acc.
            f_add F acc (f_mul F (float_of_u8 (pixel_of padded (x + kx) (y + ky) c))
                                  (weight_of kern kx ky)))"
  have 1: "shared_sum F a c_kernel (T, T) s0 c y x = fold g1 (window kern) 0"
    unfolding shared_sum_def Let_def for_loop2_fold g1_def window_def
    by (simp add: a_def S_def kw_def kh_def sw_def sh_def tx_def ty_def bx_def by_def)
  have 2: "weighted_sum F padded kern c y x = fold g2 (window kern) 0"
    by (simp add: weighted_sum_def g2_def)
  have "fold g1 (window kern) 0 = fold g2 (window kern) 0"
  proof (rule fold_cong [OF refl refl])
    fix q assume qin: "q \<in> set (window kern)"
    obtain ky kx where q: "q = (ky, kx)"
      by (cases q) auto
    have w: "0 \<le> ky" "ky < kh" "0 \<le> kx" "kx < kw"
      using qin q by (simp_all add: kw_def kh_def)
    have "0 \<le> ky * kw + kx \<and> ky * kw + kx < kh * kw"
      using radix_bound [of kx kw ky kh] w by simp
    then have "nat (ky * kw + kx) < Kernel_get_size kern"
      by (simp add: Kernel_get_size_def kw_def kh_def mult.commute)
    then have wt: "get_kernel_value c_kernel kx ky kw kh = weight_of kern kx ky"
      using ck by (simp add: get_kernel_value_def weight_of_def kw_def)
    define j where "j = (ty + ky) * sw + (tx + kx)"
    have cx: "0 \<le> tx + kx" "tx + kx < sw" and cy: "0 \<le> ty + ky" "ty + ky < sh"
      using t w by (simp_all add: sw_def sh_def)
    have jb: "0 \<le> j \<and> j < sh * sw"
      using radix_bound [OF cx cy] by (simp add: j_def)
    have jdm: "j div sw = ty + ky" "j mod sw = tx + kx"
      using radix_div_mod [OF cx, of "ty + ky"] by (simp_all add: j_def)
    have "(ty + ky) * sw \<le> (ty + kh - 1) * sw"
      using w sw by (intro mult_right_mono) auto
    then have "j \<le> (ty + kh - 1) * sw + (tx + kw - 1)"
      using w by (simp add: j_def)
    moreover have "(ty + kh - 1) * sw + (tx + kw - 1) < 2 * (T * T)"
      using st by (simp add: kw_def kh_def sw_def ty_def tx_def add_diff_eq)
    ultimately have j2: "j < 2 * (T * T)"
      by linarith
    have "length s0 = nat (sw * sh)"
      using len by (simp add: kw_def kh_def sw_def sh_def add_diff_eq)
    then have jl: "nat j < length s0"
      using jb by (simp add: mult.commute)
    have js: "nat j \<in> staged a (T, T)"
      using jb j2 unfolding staged_def a_def args_of_simps fst_conv snd_conv
        kw_def [symmetric] kh_def [symmetric] sw_def [symmetric] sh_def [symmetric]
      by (simp add: mult.commute)
    have "S ! nat j = tile_value a c (T, T) (bx, by) (nat j)"
      unfolding S_def using jl js by (rule tile_staged)
    also have "\<dots> = staged_value a c (T, T) (bx, by) pw j"
      using jb kk by (simp add: tile_value_def a_def pw_def)
    also have "\<dots> = get_pixel_value (d_input a) (x + kx) (y + ky) c
                      (arg_width a + (2 * arg_padding_width a))
                      (arg_height a + (2 * arg_padding_height a))
                      (arg_channels a) (arg_is_SoA a)"
    proof -
      have s: "j smod (T + (kw - 1)) = tx + kx" "j sdiv (T + (kw - 1)) = ty + ky"
        unfolding sw_def [symmetric] using jb sw jdm by (simp_all add: smod_nonneg sdiv_nonneg)
      have gx: "bx * T + (tx + kx) - half_floor kw + pw = x + kx"
        using xy by (simp add: pw_def)
      have gy: "by * T + (ty + ky) - half_floor kh + pw = y + ky"
        using xy kk by (simp add: pw_def)
      have gx': "bx * T + (tx + kx) = x + kx" and gy': "by * T + (ty + ky) = y + ky"
        using xy by simp_all
      have "0 \<le> x + kx" "x + kx < width img + 2 * pw" "0 \<le> y + ky" "y + ky < height img + 2 * pw"
        using r w kw2 kk by simp_all
      then show ?thesis
        using kk by (simp add: staged_value_def Let_def a_def s gx gy gx' gy' kw_def [symmetric]
            kh_def [symmetric] pw_def [symmetric])
    qed
    also have "\<dots> = pixel_of padded (x + kx) (y + ky) c"
      using pd by (simp add: get_pixel_value_def pixel_of_def Image_index_def a_def args_of_def
          kw_def kh_def pw_def)
    finally have px: "get_shared_pixel_value S (tx + kx) (ty + ky) sw sh
        = pixel_of padded (x + kx) (y + ky) c"
      by (simp add: get_shared_pixel_value_def j_def)
    show "g1 q = g2 q"
      using wt px by (simp add: g1_def g2_def q)
  qed
  then show ?thesis
    using 1 2 by (simp add: a_def pw_def kw_def kh_def)
qed

lemma convolve_pinned_eq:
  "convolve_pinned F img kern pt junk c_kernel0 junk_s
   = convolve_shared F img kern pt junk c_kernel0 junk_s"
  by (simp add: convolve_pinned_def convolve_shared_def Let_def args_of_def Image_from_def
      get_size_def)

text \<open>What the shared-memory strategy returns: the output buffer holds, for every pixel,
  the stored sum over the tile.\<close>

lemma convolve_shared_pixels:
  assumes wf: "wf_image img" and k: "wf_kernel kern"
    and p: "padding img (half_floor (k_width kern)) (half_floor (k_height kern)) pt = Inr padded"
    and ck: "copy_to_c_kernel c_kernel0 kern = Inr c_kernel"
  shows "\<exists>d_output.
           convolve_shared F img kern pt junk c_kernel0 junk_s
             = Inr (Image_from (width img) (height img) (channels img) d_output (is_SoA img))
           \<and> length d_output = get_size img
           \<and> (\<forall>c y x. 0 \<le> c \<and> c < channels img \<and> 0 \<le> y \<and> y < height img
                  \<and> 0 \<le> x \<and> x < width img
                \<longrightarrow> d_output ! nat (pixel_index (is_SoA img) (width img) (height img)
                                      (channels img) x y c)
                    = store_u8 (shared_sum F
                        (args_of img kern padded (half_floor (k_width kern))
                           (half_floor (k_height kern)))
                        c_kernel (TILE_WIDTH, TILE_WIDTH)
                        (uninitialized junk_s
                           (nat ((TILE_WIDTH + k_width kern - 1) * (TILE_WIDTH + k_height kern - 1))))
                        c y x))"
proof -
  define a where "a = args_of img kern padded (half_floor (k_width kern)) (half_floor (k_height kern))"
  define s0 where "s0 = uninitialized junk_s
      (nat ((TILE_WIDTH + k_width kern - 1) * (TILE_WIDTH + k_height kern - 1)))"
  define d_output where "d_output = for_loop ITERATIONS (\<lambda>i.
       launch (grid_of (width img) (height img) (TILE_WIDTH, TILE_WIDTH))
         (\<lambda>blockIdx. convolution_kernel_shared F a c_kernel (TILE_WIDTH, TILE_WIDTH) blockIdx s0))
       (uninitialized junk (get_size img))"
  have kk: "1 \<le> arg_kernel_width a" "1 \<le> arg_kernel_height a"
    using k by (simp_all add: a_def wf_kernel_def valid_kernel_dims_def)
  have len0: "length (uninitialized junk (get_size img))
      = nat (arg_width a * arg_height a * arg_channels a)"
    by (simp add: a_def get_size_def)
  have 1: "convolve_shared F img kern pt junk c_kernel0 junk_s
        = Inr (Image_from (width img) (height img) (channels img) d_output (is_SoA img))"
    using p ck by (simp add: convolve_shared_def Let_def a_def s0_def d_output_def)
  have 2: "length d_output = get_size img"
    unfolding d_output_def
    using shared_launches(2) [OF TILE_WIDTH_pos ITERATIONS_pos kk _ _ _ _ _ _ len0,
        of 0 0 0 F c_kernel s0] wf
    by (simp add: a_def wf_image_def)
  have 3: "d_output ! nat (pixel_index (is_SoA img) (width img) (height img) (channels img) x y c)
        = store_u8 (shared_sum F a c_kernel (TILE_WIDTH, TILE_WIDTH) s0 c y x)"
    if "0 \<le> c \<and> c < channels img \<and> 0 \<le> y \<and> y < height img \<and> 0 \<le> x \<and> x < width img"
    for c y x
    unfolding d_output_def
    using shared_launches(1) [OF TILE_WIDTH_pos ITERATIONS_pos kk _ _ _ _ _ _ len0,
        of c y x F c_kernel s0] that
    by (simp add: a_def)
  show ?thesis
    using 1 2 3 unfolding a_def s0_def by blast
qed

text \<open>When the whole tile is staged, which for tiles of 16 by 16 threads means a kernel
  of at most 7 by 7 weights, the shared-memory strategy and the pinned-memory strategy
  return what the sequential convolution returns.\<close>

lemma convolve_shared_eq:
  assumes wf: "wf_image img" and k: "wf_kernel kern"
    and small: "k_width kern \<le> 7"
  shows "convolve_shared F img kern pt junk c_kernel0 junk_s = convolve F img kern pt"
proof (cases "padding img (half_floor (k_width kern)) (half_floor (k_height kern)) pt")
  case (Inl e)
  have v: "valid_kernel_dims (k_width kern) (k_height kern)"
    using k by (simp add: wf_kernel_def)
  show ?thesis
    using convolve_padding_Inl [OF v Inl, of F] Inl by (simp add: convolve_shared_def Let_def)
next
  case (Inr padded)
  define kw where "kw = k_width kern"
  have v: "valid_kernel_dims (k_width kern) (k_height kern)"
    using k by (simp add: wf_kernel_def)
  then have kk: "k_height kern = kw" "0 < kw"
    by (simp_all add: valid_kernel_dims_def kw_def)
  have "kw * kw \<le> 7 * 7"
    using small kk by (intro mult_mono) (simp_all add: kw_def)
  then obtain c_kernel where c: "copy_to_c_kernel c_kernel0 kern = Inr c_kernel"
    using kk by (simp add: copy_to_c_kernel_def MAX_MASK_WIDTH_def kw_def)
  define s0 where "s0 = uninitialized junk_s
      (nat ((TILE_WIDTH + k_width kern - 1) * (TILE_WIDTH + k_height kern - 1)))"
  obtain d_output where d: "convolve_shared F img kern pt junk c_kernel0 junk_s
             = Inr (Image_from (width img) (height img) (channels img) d_output (is_SoA img))"
      "length d_output = get_size img"
    and px: "\<And>c y x. 0 \<le> c \<and> c < channels img \<and> 0 \<le> y \<and> y < height img
                  \<and> 0 \<le> x \<and> x < width img
                \<Longrightarrow> d_output ! nat (pixel_index (is_SoA img) (width img) (height img)
                                      (channels img) x y c)
                    = store_u8 (shared_sum F
                        (args_of img kern padded (half_floor (k_width kern))
                           (half_floor (k_height kern)))
                        c_kernel (TILE_WIDTH, TILE_WIDTH) s0 c y x)"
    using convolve_shared_pixels [OF wf k Inr c, of F junk junk_s] unfolding s0_def by blast
  have "convolve F img kern pt
         = Inr (Image_from (width img) (height img) (channels img) d_output (is_SoA img))"
  proof (rule device_output_convolve [OF wf v Inr d(2)])
    fix c y x
    assume r: "0 \<le> c" "c < channels img" "0 \<le> y" "y < height img" "0 \<le> x" "x < width img"
    have m: "y mod TILE_WIDTH \<le> 15" "x mod TILE_WIDTH \<le> 15"
      using pos_mod_bound [of TILE_WIDTH y] pos_mod_bound [of TILE_WIDTH x]
      by (simp_all add: TILE_WIDTH_def)
    have "(y mod TILE_WIDTH + kw - 1) * (TILE_WIDTH + kw - 1) \<le> (15 + 7 - 1) * (16 + 7 - 1)"
      using m small kk pos_mod_sign [of TILE_WIDTH y]
      by (intro mult_mono) (simp_all add: TILE_WIDTH_def kw_def)
    then have st: "(y mod TILE_WIDTH + k_height kern - 1) * (TILE_WIDTH + k_width kern - 1)
             + (x mod TILE_WIDTH + k_width kern - 1) < 2 * (TILE_WIDTH * TILE_WIDTH)"
      using m small kk by (simp add: TILE_WIDTH_def kw_def)
    have ckw: "c_kernel ! i = k_data kern ! i" if "i < Kernel_get_size kern" for i
      using c_kernel_weights [OF k c that] .
    have ls: "length s0
        = nat ((TILE_WIDTH + k_width kern - 1) * (TILE_WIDTH + k_height kern - 1))"
      unfolding s0_def by (rule length_uninitialized)
    have "shared_sum F
            (args_of img kern padded (half_floor (k_width kern)) (half_floor (k_height kern)))
            c_kernel (TILE_WIDTH, TILE_WIDTH) s0 c y x
          = weighted_sum F padded kern c y x"
      by (rule shared_sum_weighted_sum [OF v padded_facts [OF Inr] ckw TILE_WIDTH_pos r(3-6) ls st])
    then show "d_output ! nat (pixel_index (is_SoA img) (width img) (height img) (channels img) x y c)
        = store_u8 (weighted_sum F padded kern c y x)"
      using px [of c y x] r by simp
  qed
  then show ?thesis using d(1) by simp
qed

section \<open>A kernel of 9 by 9 weights\<close>

lemma wf_black14: "wf_image black14"
  by (simp add: wf_image_def black14_def Image_new_def get_size_def)

lemma wf_corner9: "wf_kernel corner9"
  by (simp add: wf_kernel_def corner9_def valid_kernel_dims_def Kernel_get_size_def)

lemma convolve_black14: "convolve exact_ops black14 corner9 ZERO = Inr black14"
  by code_simp

lemma one_hot_sum:
  assumes "distinct qs"
    and "\<And>q. q \<in> set qs \<Longrightarrow> q \<noteq> q0 \<Longrightarrow> Wt q = 0" and "Wt q0 = 1"
  shows "fold (\<lambda>q acc. f_add exact_ops acc (f_mul exact_ops (P q) (Wt q))) qs a
         = a + (if q0 \<in> set qs then P q0 else 0)"
  using assms(1,2)
proof (induction qs arbitrary: a)
  case Nil
  then show ?case by simp
next
  case (Cons q qs)
  show ?case
  proof (cases "q = q0")
    case True
    then have "q0 \<notin> set qs" using Cons.prems(1) by simp
    then show ?thesis
      using Cons True assms(3) by (simp add: exact_ops_def)
  next
    case False
    then have "Wt q = 0" using Cons.prems(2) by simp
    then show ?thesis
      using Cons False by (simp add: exact_ops_def)
  qed
qed


lemma window_corner9: "distinct (window corner9)" "(8, 8) \<in> set (window corner9)"
  by (simp_all add: window_def distinct_product corner9_def)

lemma half_floor_9: "half_floor 9 = 4"
  by (simp add: half_floor_div)

text \<open>On a 9 by 9 kernel whose only weight is the last one, the thread of output pixel
  \<open>(0, 13)\<close> of the tiled kernel computes the byte at position 512 of the tile: a position
  that no load writes, since the two loads of the 256 threads fill positions 0 to 511 of
  the 24 by 24 tile.\<close>

lemma shared_sum_corner9:
  assumes ck: "\<And>i. i < 81 \<Longrightarrow> c_kernel ! i = k_data corner9 ! i"
    and len: "length s0 = 576"
  shows "shared_sum exact_ops (args_of black14 corner9 padded 4 4) c_kernel (16, 16) s0 0 13 0
         = float_of_u8 (s0 ! 512)"
proof -
  define a where "a = args_of black14 corner9 padded 4 4"
  define S where "S = tile a 0 (16, 16) (0, 0) s0"
  define P where "P = (\<lambda>(ky, kx). float_of_u8 (get_shared_pixel_value S (0 + kx) (13 + ky) 24 24))"
  define Wt where "Wt = (\<lambda>(ky, kx). get_kernel_value c_kernel kx ky 9 9)"
  have w: "Wt q = 0" if "q \<in> set (window corner9)" "q \<noteq> (8, 8)" for q
  proof -
    obtain ky kx where q: "q = (ky, kx)" by (cases q) auto
    have r: "0 \<le> ky" "ky \<le> 8" "0 \<le> kx" "kx \<le> 8" "ky \<noteq> 8 \<or> kx \<noteq> 8"
      using that q by (auto simp: corner9_def)
    then have i: "0 \<le> ky * 9 + kx" "ky * 9 + kx < 80"
      by auto
    then have "c_kernel ! nat (ky * 9 + kx) = k_data corner9 ! nat (ky * 9 + kx)"
      by (intro ck) simp
    also have "\<dots> = 0"
      using i by (simp add: corner9_def nth_append)
    finally show ?thesis
      by (simp add: Wt_def q get_kernel_value_def)
  qed
  have w1: "Wt (8, 8) = 1"
    using ck [of 80] by (simp add: Wt_def get_kernel_value_def corner9_def nth_append)
  have "shared_sum exact_ops a c_kernel (16, 16) s0 0 13 0
        = fold (\<lambda>q acc. f_add exact_ops acc (f_mul exact_ops (P q) (Wt q))) (window corner9) 0"
    unfolding shared_sum_def Let_def for_loop2_fold P_def Wt_def window_def S_def
    by (simp add: a_def corner9_def case_prod_unfold)
  also have "\<dots> = 0 + (if (8, 8) \<in> set (window corner9) then P (8, 8) else 0)"
    by (rule one_hot_sum [of "window corner9" "(8, 8)" Wt P 0, OF window_corner9(1) w w1])
  also have "\<dots> = float_of_u8 (S ! 512)"
    using window_corner9(2) by (simp add: P_def get_shared_pixel_value_def)
  also have "S ! 512 = s0 ! 512"
    unfolding S_def by (rule tile_unstaged) (simp_all add: len staged_def)
  finally show ?thesis by (simp add: a_def)
qed

lemma convolve_shared_black14:
  "\<exists>d_output.
     convolve_shared exact_ops black14 corner9 ZERO junk (replicate 100 0) junk_s
       = Inr (Image_from 1 14 1 d_output False)
     \<and> length d_output = 14 \<and> d_output ! 13 = junk_s 512"
proof -
  have dims: "width black14 = 1" "height black14 = 14" "channels black14 = 1"
    "is_SoA black14 = False" "get_size black14 = 14"
    by (simp_all add: black14_def Image_new_def get_size_def)
  have kd: "k_width corner9 = 9" "k_height corner9 = 9"
    by (simp_all add: corner9_def)
  obtain padded where p: "padding black14 (half_floor (k_width corner9))
      (half_floor (k_height corner9)) ZERO = Inr padded"
    using padding_returns [OF wf_black14, of 4 4 ZERO] by (auto simp: kd half_floor_9)
  obtain c_kernel where c: "copy_to_c_kernel (replicate 100 0) corner9 = Inr c_kernel"
    by (simp add: copy_to_c_kernel_def MAX_MASK_WIDTH_def kd)
  have ck: "c_kernel ! i = k_data corner9 ! i" if "i < 81" for i
    using c_kernel_weights [OF wf_corner9 c, of i] that by (simp add: Kernel_get_size_def kd)
  obtain d_output where d: "convolve_shared exact_ops black14 corner9 ZERO junk (replicate 100 0) junk_s
             = Inr (Image_from 1 14 1 d_output False)" "length d_output = 14"
    and px: "\<And>c y x. 0 \<le> c \<and> c < 1 \<and> 0 \<le> y \<and> y < 14 \<and> 0 \<le> x \<and> x < 1
                \<Longrightarrow> d_output ! nat (pixel_index False 1 14 1 x y c)
                    = store_u8 (shared_sum exact_ops (args_of black14 corner9 padded 4 4)
                        c_kernel (16, 16) (uninitialized junk_s 576) c y x)"
    using convolve_shared_pixels [OF wf_black14 wf_corner9 p c, of exact_ops junk junk_s]
    by (auto simp: dims kd half_floor_9 TILE_WIDTH_def)
  have "d_output ! nat (pixel_index False 1 14 1 0 13 0)
      = store_u8 (shared_sum exact_ops (args_of black14 corner9 padded 4 4)
                        c_kernel (16, 16) (uninitialized junk_s 576) 0 13 0)"
    by (rule px) simp
  also have "\<dots> = store_u8 (float_of_u8 (uninitialized junk_s 576 ! 512))"
    using shared_sum_corner9 [of c_kernel "uninitialized junk_s 576" padded] ck by simp
  also have "\<dots> = junk_s 512"
    by (simp add: store_u8_float_of_u8 uninitialized_def)
  finally have "d_output ! 13 = junk_s 512"
    by (simp add: pixel_index_def)
  then show ?thesis using d by blast
qed

text \<open>
  Claim C1. The claim asks that every strategy returns the raster of the sequential
  convolution for every valid raster, kernel and padding policy. The global-memory and
  constant-memory strategies do (\<open>convolve_global_eq\<close>, \<open>convolve_constant_eq\<close>), and the
  shared-memory and pinned-memory strategies do for kernels up to 7 by 7
  (\<open>convolve_shared_eq\<close>, \<open>convolve_pinned_eq\<close>). For a 9 by 9 kernel they do not: on the
  black raster of 1 by 14 pixels and the kernel whose only weight is the last one, under
  ZERO padding, the sequential, global-memory and constant-memory strategies return the
  black raster, and the shared-memory and pinned-memory strategies return a raster whose
  pixel \<open>(0, 13)\<close> is the byte that position 512 of the block's shared memory held before
  the launch.
\<close>

theorem shared_strategy_reads_unloaded_tile:
  "convolve exact_ops black14 corner9 ZERO = Inr black14
   \<and> convolve_global exact_ops black14 corner9 ZERO junk = Inr black14
   \<and> convolve_constant exact_ops black14 corner9 ZERO junk (replicate 100 0) = Inr black14
   \<and> (\<exists>out. convolve_shared exact_ops black14 corner9 ZERO junk (replicate 100 0) junk_s = Inr out
         \<and> convolve_pinned exact_ops black14 corner9 ZERO junk (replicate 100 0) junk_s = Inr out
         \<and> Image_at out 0 13 0 = Inr (junk_s 512))
   \<and> convolve_shared exact_ops black14 corner9 ZERO (\<lambda>i. 0) (replicate 100 0) (\<lambda>i. 255)
       \<noteq> convolve exact_ops black14 corner9 ZERO"
proof -
  have v: "valid_kernel_dims (k_width corner9) (k_height corner9)"
    using wf_corner9 by (simp add: wf_kernel_def)
  have fit: "k_width corner9 * k_height corner9 \<le> MAX_MASK_WIDTH * MAX_MASK_WIDTH"
    by (simp add: corner9_def MAX_MASK_WIDTH_def)
  have 1: "convolve_global exact_ops black14 corner9 ZERO junk = Inr black14"
    using convolve_global_eq [OF wf_black14 v] convolve_black14 by simp
  have 2: "convolve_constant exact_ops black14 corner9 ZERO junk (replicate 100 0) = Inr black14"
    using convolve_constant_eq [OF wf_black14 wf_corner9 fit] convolve_black14 by simp
  have 3: "\<exists>out. convolve_shared exact_ops black14 corner9 ZERO junk (replicate 100 0) junk_s = Inr out
         \<and> convolve_pinned exact_ops black14 corner9 ZERO junk (replicate 100 0) junk_s = Inr out
         \<and> Image_at out 0 13 0 = Inr (junk_s 512)" for junk junk_s
  proof -
    obtain d_output where d: "convolve_shared exact_ops black14 corner9 ZERO junk (replicate 100 0) junk_s
       = Inr (Image_from 1 14 1 d_output False)" "length d_output = 14" "d_output ! 13 = junk_s 512"
      using convolve_shared_black14 by blast
    have "Image_at (Image_from 1 14 1 d_output False) 0 13 0 = Inr (junk_s 512)"
      using d(2,3)
      by (simp add: Image_at_def coords_invalid_def Image_index_def pixel_index_def
          Image_from_def Image_new_def)
    then show ?thesis
      using d(1) by (simp add: convolve_pinned_eq)
  qed
  have 4: "convolve_shared exact_ops black14 corner9 ZERO (\<lambda>i. 0) (replicate 100 0) (\<lambda>i. 255)
       \<noteq> convolve exact_ops black14 corner9 ZERO"
  proof
    assume e: "convolve_shared exact_ops black14 corner9 ZERO (\<lambda>i. 0) (replicate 100 0) (\<lambda>i. 255)
       = convolve exact_ops black14 corner9 ZERO"
    obtain out where "convolve_shared exact_ops black14 corner9 ZERO (\<lambda>i. 0) (replicate 100 0) (\<lambda>i. 255)
        = Inr out" "Image_at out 0 13 0 = Inr 255"
      using 3 [of "\<lambda>i. 0" "\<lambda>i. 255"] by blast
    then have "Image_at black14 0 13 0 = Inr 255"
      using e convolve_black14 by simp
    then show False
      by (simp add: Image_at_def coords_invalid_def Image_index_def pixel_index_def
          black14_def Image_new_def)
  qed
  show ?thesis
    using convolve_black14 1 2 3 4 by blast
qed

section \<open>The stored byte\<close>

text \<open>
  Claim C2, as amended. Take a well-formed raster and a kernel of valid dimensions (under
  MIRROR, with half the kernel smaller than the raster in both directions), in the range
  in which the integers and the float indices of the program are exact: the padded
  raster has at most \<open>INT_MAX\<close> bytes, the kernel at most \<open>INT_MAX\<close> bytes, and the width
  and the height of the raster, each increased by that of the kernel, are at most
  \<open>2 ^ 24\<close>. Then the padding and the convolution return, in the sequential engine with
  the float operations \<open>F\<close> of the host and in the global-memory kernel with the float
  operations \<open>G\<close> of the device, and every output pixel \<open>(x, y)\<close> of every channel \<open>c\<close> holds
  the weighted sum of the padded raster over the kernel window, accumulated in a float,
  clamped into the interval from 0 to 255 and then cut to its integer part: the stored
  byte is \<open>floor (min (max 0 value) 255)\<close>, not the clamp of the value rounded to
  nearest. Clamping saturates: a raw value of 300 is stored as 255, a raw value of -40
  as 0.
\<close>

theorem convolve_stores_clamped_sum:
  assumes "wf_image img" "valid_kernel_dims (k_width kern) (k_height kern)"
    and "pt = MIRROR \<longrightarrow> k_width kern sdiv 2 < width img \<and> k_height kern sdiv 2 < height img"
    and "(width img + 2 * (k_width kern sdiv 2)) * (height img + 2 * (k_height kern sdiv 2))
           * channels img \<le> INT_MAX"
    and "k_width kern * k_height kern * 4 \<le> INT_MAX"
    and "width img + k_width kern \<le> 2 ^ 24" "height img + k_height kern \<le> 2 ^ 24"
  shows "\<exists>padded out out_g.
           padding img (k_width kern sdiv 2) (k_height kern sdiv 2) pt = Inr padded
           \<and> convolve F img kern pt = Inr out
           \<and> convolve_global G img kern pt junk = Inr out_g
           \<and> (\<forall>c y x. 0 \<le> c \<and> c < channels img \<and> 0 \<le> y \<and> y < height img
                  \<and> 0 \<le> x \<and> x < width img
                \<longrightarrow> Image_at out x y c
                    = Inr (word_of_int \<lfloor>min (max 0 (weighted_sum F padded kern c y x)) 255\<rfloor>)
                    \<and> Image_at out_g x y c
                    = Inr (word_of_int \<lfloor>min (max 0 (weighted_sum G padded kern c y x)) 255\<rfloor>))
           \<and> store_u8 300 = 255 \<and> store_u8 (- 40) = 0"
proof -
  have pos: "0 \<le> k_width kern sdiv 2" "0 \<le> k_height kern sdiv 2"
    using assms(2) by (simp_all add: sdiv_two_nonneg valid_kernel_dims_def)
  obtain padded where p: "padding img (k_width kern sdiv 2) (k_height kern sdiv 2) pt = Inr padded"
    using padding_returns [OF assms(1) pos assms(3)] by blast
  obtain out where o: "convolve F img kern pt = Inr out"
    and po: "\<forall>c y x. 0 \<le> c \<and> c < channels img \<and> 0 \<le> y \<and> y < height img \<and> 0 \<le> x \<and> x < width img
           \<longrightarrow> Image_at out x y c = Inr (store_u8 (weighted_sum F padded kern c y x))"
    using convolve_pixels [OF assms(2) p, of F] by blast
  obtain out_g where "convolve G img kern pt = Inr out_g"
    and pg: "\<forall>c y x. 0 \<le> c \<and> c < channels img \<and> 0 \<le> y \<and> y < height img \<and> 0 \<le> x \<and> x < width img
           \<longrightarrow> Image_at out_g x y c = Inr (store_u8 (weighted_sum G padded kern c y x))"
    using convolve_pixels [OF assms(2) p, of G] by blast
  then have g: "convolve_global G img kern pt junk = Inr out_g"
    using convolve_global_eq [OF assms(1,2), of G pt junk] by simp
  show ?thesis
    using p o g po pg store_u8_saturates
    by (auto simp: store_u8_def clamp_def)
qed

theorem convolve_stores_clamped_sum_witness:
  "wf_image raster4 \<and> valid_kernel_dims 3 3
   \<and> (width raster4 + 2 * 1) * (height raster4 + 2 * 1) * channels raster4 \<le> INT_MAX
   \<and> (3 :: int) * 3 * 4 \<le> INT_MAX
   \<and> width raster4 + 3 \<le> 2 ^ 24 \<and> height raster4 + 3 \<le> 2 ^ 24
   \<and> (\<exists>padded out out_g.
         padding raster4 1 1 MIRROR = Inr padded
         \<and> padded = raster4_mirrored
         \<and> convolve exact_ops raster4 \<lparr>k_width = 3, k_height = 3, k_data = [0, 0, 0, 0, 1/2, 1/4, 0, 0, 0]\<rparr> MIRROR
             = Inr out
         \<and> convolve_global exact_ops raster4
               \<lparr>k_width = 3, k_height = 3, k_data = [0, 0, 0, 0, 1/2, 1/4, 0, 0, 0]\<rparr> MIRROR (\<lambda>i. 0)
             = Inr out_g
         \<and> weighted_sum exact_ops padded \<lparr>k_width = 3, k_height = 3, k_data = [0, 0, 0, 0, 1/2, 1/4, 0, 0, 0]\<rparr> 0 0 0
             = 1 / 4
         \<and> Image_at out 0 0 0 = Inr 0 \<and> Image_at out_g 0 0 0 = Inr 0
         \<and> weighted_sum exact_ops padded \<lparr>k_width = 3, k_height = 3, k_data = [0, 0, 0, 0, 1/2, 1/4, 0, 0, 0]\<rparr> 0 1 2
             = 19 / 4
         \<and> Image_at out 2 1 0 = Inr 4 \<and> Image_at out_g 2 1 0 = Inr 4)
   \<and> store_u8 300 = 255 \<and> store_u8 (- 40) = 0"
proof -
  define kern where "kern = \<lparr>k_width = 3, k_height = 3, k_data = [0, 0, 0, 0, 1/2, 1/4, 0, 0, 0 :: float]\<rparr>"
  have v: "valid_kernel_dims (k_width kern) (k_height kern)"
    by (simp add: kern_def valid_kernel_dims_def)
  have s: "k_width kern sdiv 2 = 1" "k_height kern sdiv 2 = 1"
    by (simp_all add: kern_def signed_divide_int_def)
  have dims: "width raster4 = 4" "height raster4 = 4" "channels raster4 = 1"
    by (simp_all add: raster4_def Image_from_def Image_new_def)
  have m: "MIRROR = MIRROR \<longrightarrow> k_width kern sdiv 2 < width raster4 \<and> k_height kern sdiv 2 < height raster4"
    by (simp add: s dims)
  have r: "(width raster4 + 2 * (k_width kern sdiv 2)) * (height raster4 + 2 * (k_height kern sdiv 2))
             * channels raster4 \<le> INT_MAX"
    "k_width kern * k_height kern * 4 \<le> INT_MAX"
    "width raster4 + k_width kern \<le> 2 ^ 24" "height raster4 + k_height kern \<le> 2 ^ 24"
    by (simp_all add: s dims kern_def INT_MAX_def)
  obtain padded out out_g where p: "padding raster4 1 1 MIRROR = Inr padded"
    and c: "convolve exact_ops raster4 kern MIRROR = Inr out"
    and g: "convolve_global exact_ops raster4 kern MIRROR (\<lambda>i. 0) = Inr out_g"
    and px: "\<And>c y x. 0 \<le> c \<and> c < 1 \<and> 0 \<le> y \<and> y < 4 \<and> 0 \<le> x \<and> x < 4
                \<Longrightarrow> Image_at out x y c
                    = Inr (word_of_int \<lfloor>min (max 0 (weighted_sum exact_ops padded kern c y x)) 255\<rfloor>)
                    \<and> Image_at out_g x y c
                    = Inr (word_of_int \<lfloor>min (max 0 (weighted_sum exact_ops padded kern c y x)) 255\<rfloor>)"
    and st: "store_u8 300 = 255" "store_u8 (- 40) = 0"
    using convolve_stores_clamped_sum [OF wf_raster4 v m r, of exact_ops exact_ops "\<lambda>i. 0"]
    by (auto simp: s dims)
  have pm: "padded = raster4_mirrored"
    using p padding_raster4_mirror by simp
  have w1: "weighted_sum exact_ops raster4_mirrored kern 0 0 0 = 1 / 4"
    unfolding kern_def by code_simp
  have w2: "weighted_sum exact_ops raster4_mirrored kern 0 1 2 = 19 / 4"
    unfolding kern_def by code_simp
  have o: "Image_at out 0 0 0 = Inr 0" "Image_at out 2 1 0 = Inr 4"
    "Image_at out_g 0 0 0 = Inr 0" "Image_at out_g 2 1 0 = Inr 4"
    using px [of 0 0 0] px [of 0 1 2] by (simp_all add: pm w1 w2)
  have r': "(width raster4 + 2 * 1) * (height raster4 + 2 * 1) * channels raster4 \<le> INT_MAX"
    "(3 :: int) * 3 * 4 \<le> INT_MAX" "width raster4 + 3 \<le> 2 ^ 24" "height raster4 + 3 \<le> 2 ^ 24"
    by (simp_all add: dims INT_MAX_def)
  have v': "valid_kernel_dims 3 3"
    by (simp add: valid_kernel_dims_def)
  have "\<exists>padded out out_g.
         padding raster4 1 1 MIRROR = Inr padded
         \<and> padded = raster4_mirrored
         \<and> convolve exact_ops raster4 kern MIRROR = Inr out
         \<and> convolve_global exact_ops raster4 kern MIRROR (\<lambda>i. 0) = Inr out_g
         \<and> weighted_sum exact_ops padded kern 0 0 0 = 1 / 4
         \<and> Image_at out 0 0 0 = Inr 0 \<and> Image_at out_g 0 0 0 = Inr 0
         \<and> weighted_sum exact_ops padded kern 0 1 2 = 19 / 4
         \<and> Image_at out 2 1 0 = Inr 4 \<and> Image_at out_g 2 1 0 = Inr 4"
    using p c g pm w1 w2 o by blast
  then show ?thesis
    using wf_raster4 v' r' st unfolding kern_def by blast
qed

text \<open>
  The claim as stated fails: a pixel of value 3 under the 1 by 1 kernel of weight 0.25
  has the weighted sum 0.75 (exact in a float), whose rounding to nearest is 1, and the
  stored byte is 0.
\<close>

theorem convolve_rounds_counterexample:
  "convolve exact_ops (Image_from 1 1 1 [3] False) \<lparr>k_width = 1, k_height = 1, k_data = [1 / 4]\<rparr> ZERO
     = Inr \<lparr>width = 1, height = 1, channels = 1, is_SoA = False, data = [0]\<rparr>
   \<and> weighted_sum exact_ops (Image_from 1 1 1 [3] False) \<lparr>k_width = 1, k_height = 1, k_data = [1 / 4]\<rparr> 0 0 0
       = 3 / 4
   \<and> (word_of_int (clamp 0 (round (3 / 4 :: real)) 255) :: u8) = 1"
proof -
  have 1: "convolve exact_ops (Image_from 1 1 1 [3] False) \<lparr>k_width = 1, k_height = 1, k_data = [1 / 4]\<rparr> ZERO
     = Inr \<lparr>width = 1, height = 1, channels = 1, is_SoA = False, data = [0]\<rparr>"
    by code_simp
  have 2: "weighted_sum exact_ops (Image_from 1 1 1 [3] False) \<lparr>k_width = 1, k_height = 1, k_data = [1 / 4]\<rparr> 0 0 0
       = 3 / 4"
    by code_simp
  have "round (3 / 4 :: real) = 1"
    by (simp add: round_def)
  then have 3: "(word_of_int (clamp 0 (round (3 / 4 :: real)) 255) :: u8) = 1"
    by (simp add: clamp_def)
  show ?thesis
    using 1 2 3 by simp
qed

end
